theory Spec2Isabelle
  imports Complex_Main "HOL-Library.Word"
begin

unbundle bit_operations_syntax

section \<open>Machine types and the genotype encoding of the variant-file library\<close>

text \<open>
  Modelled from the spec: the integer types \<^verbatim>\<open>uchar\<close>, \<^verbatim>\<open>uint\<close> and \<^verbatim>\<open>uint64\<close>
  of \<^verbatim>\<open>Types.hpp\<close>, which is not among the sources; the spec speaks of small integer
  codes, a 32-bit generator state and 64-bit masks. They are words, so that
  \<^verbatim>\<open>g += idx\<close>, the generator update and the bit masks wrap and shift as in C++.

  A genotype value is an \<^verbatim>\<open>int32_t\<close>; the code only shifts, masks and compares it,
  so it is an integer here (no arithmetic on it can overflow). Sample counts, counters
  and vector indices are naturals.
\<close>

type_synonym int32_t = int
type_synonym uchar = "8 word"
type_synonym uint = "32 word"
type_synonym uint64 = "64 word"

text \<open>
  The encoder reads a genotype value through four macros of the variant-file library
  (\<^verbatim>\<open>htslib/vcf.h\<close>, outside this repository), given here as that header defines them:
  \<^verbatim>\<open>bcf_int32_vector_end\<close> is \<^verbatim>\<open>INT32_MIN + 1\<close>,
  \<^verbatim>\<open>bcf_gt_is_missing(v)\<close> is \<^verbatim>\<open>((v)>>1 ? 0 : 1)\<close>,
  \<^verbatim>\<open>bcf_gt_allele(v)\<close> is \<^verbatim>\<open>(((v)>>1)-1)\<close> and
  \<^verbatim>\<open>bcf_gt_is_phased(v)\<close> is \<^verbatim>\<open>((v)&1)\<close>. The shift of a signed value is
  arithmetic, that is, division by two rounding down. A call with allele index \<open>a\<close> is
  stored as \<open>2 * (a + 1)\<close>, plus 1 when phased; a missing allele as 0 or 1.
\<close>

definition bcf_int32_vector_end :: int32_t where
  "bcf_int32_vector_end = - 2147483647"

definition bcf_gt_is_missing :: "int32_t \<Rightarrow> bool" where
  "bcf_gt_is_missing v = (v div 2 = 0)"

definition bcf_gt_allele :: "int32_t \<Rightarrow> int" where
  "bcf_gt_allele v = v div 2 - 1"

definition bcf_gt_is_phased :: "int32_t \<Rightarrow> bool" where
  "bcf_gt_is_phased v = (v mod 2 \<noteq> 0)"

text \<open>Every \<^verbatim>\<open>exit(1)\<close> of the file, and the one division that can trap.\<close>

datatype error =
    RefPloidy             \<comment> \<open>ref ploidy != 2 (ngt != 2*nsmpl)\<close>
  | RefHaploid            \<comment> \<open>ref genotypes contain haploid sample\<close>
  | TargetPloidy          \<comment> \<open>target ploidy != 2 (ngt != 2*nsmpl)\<close>
  | TargetHaploid         \<comment> \<open>target genotypes contain haploid sample\<close>
  | TargetMultiAllelic    \<comment> \<open>multi-allelic site found in target\<close>
  | DivisionByZero        \<comment> \<open>\<^verbatim>\<open>ngt/nsmpl\<close> with \<^verbatim>\<open>nsmpl == 0\<close>\<close>
  | RegionInit            \<comment> \<open>failed to initialize the region\<close>
  | OpenRef               \<comment> \<open>could not open the reference file\<close>
  | OpenTarget            \<comment> \<open>could not open the target file\<close>
  | InvalidChromosome     \<comment> \<open>invalid chromosome number\<close>
  | TooFewSNPs            \<comment> \<open>target and ref have too few matching SNPs\<close>
  | ZeroRange             \<comment> \<open>physical and genetic distance ranges must be positive\<close>

section \<open>Genotype encoding\<close>

subsection \<open>Reference side: \<^verbatim>\<open>process_ref_genotypes\<close>\<close>

text \<open>The generator step \<^verbatim>\<open>w=18000*(w&65535)+(w>>16)\<close> on the 32-bit state.\<close>

definition mwc :: "uint \<Rightarrow> uint" where
  "mwc w = 18000 * (w AND 65535) + drop_bit 16 w"

text \<open>
  The loop over \<^verbatim>\<open>j < ploidy\<close> of one sample; the list holds \<^verbatim>\<open>ptr[j], ptr[j+1], ...\<close>
  up to \<^verbatim>\<open>ptr[ploidy-1]\<close>. \<^verbatim>\<open>haps\<close> is the two-element array, written at index \<^verbatim>\<open>j\<close>.
\<close>

fun ref_alleles :: "int32_t list \<Rightarrow> nat \<Rightarrow> bool list \<times> bool \<times> bool
    \<Rightarrow> error + (bool list \<times> bool \<times> bool)" where
  "ref_alleles [] j s = Inr s"
| "ref_alleles (p # ps) j (haps, missing, unphased) =
     (if p = bcf_int32_vector_end then Inl RefHaploid
      else if bcf_gt_is_missing p then ref_alleles ps (Suc j) (haps, True, unphased)
      else
        let idx = bcf_gt_allele p in
        ref_alleles ps (Suc j)
          (haps[j := (idx \<ge> 1)], missing,
           (if j = 1 \<and> \<not> bcf_gt_is_phased p then True else unphased)))"

text \<open>
  What follows the allele loop for one sample: the missing and unphased policies, the
  optional inversion, and the two values pushed to \<^verbatim>\<open>hapsRef\<close>. The state is
  \<^verbatim>\<open>(hapsRef, numMissing, numUnphased, w)\<close>.
\<close>

definition ref_policy :: "bool \<Rightarrow> bool list \<times> bool \<times> bool
    \<Rightarrow> bool list \<times> nat \<times> nat \<times> uint \<Rightarrow> bool list \<times> nat \<times> nat \<times> uint" where
  "ref_policy refAltSwap r s =
     (case r of (haps, missing, unphased) \<Rightarrow>
      case s of (hapsRef, numMissing, numUnphased, w) \<Rightarrow>
       let (haps1, numMissing1, numUnphased1, w1) =
             (if missing then ([False, False], numMissing + 1, numUnphased, w)
              else if unphased then
                (if haps ! 0 \<noteq> haps ! 1 then
                   (let w' = mwc w in
                    if w' AND 1 \<noteq> 0 then ([haps ! 1, haps ! 0], numMissing, numUnphased + 1, w')
                    else (haps, numMissing, numUnphased + 1, w'))
                 else (haps, numMissing, numUnphased + 1, w))
              else (haps, numMissing, numUnphased, w));
           haps2 = (if refAltSwap then [\<not> haps1 ! 0, \<not> haps1 ! 1] else haps1)
       in (hapsRef @ [haps2 ! 0, haps2 ! 1], numMissing1, numUnphased1, w1))"

text \<open>
  The loop over the samples \<^verbatim>\<open>i\<close>; \<^verbatim>\<open>ptr = gt + i*ploidy\<close>. The array \<^verbatim>\<open>haps\<close> is
  uninitialised in the source; every read of it follows a write (both slots are written
  when no allele is missing, and both are overwritten when one is), so its initial content
  is immaterial.
\<close>

fun ref_samples :: "nat \<Rightarrow> int32_t list \<Rightarrow> bool \<Rightarrow> nat list
    \<Rightarrow> bool list \<times> nat \<times> nat \<times> uint \<Rightarrow> error + (bool list \<times> nat \<times> nat \<times> uint)" where
  "ref_samples ploidy gt refAltSwap [] s = Inr s"
| "ref_samples ploidy gt refAltSwap (i # is) s =
     (case ref_alleles (take ploidy (drop (i * ploidy) gt)) 0 ([False, False], False, False) of
        Inl e \<Rightarrow> Inl e
      | Inr r \<Rightarrow> ref_samples ploidy gt refAltSwap is (ref_policy refAltSwap r s))"

definition process_ref_genotypes :: "nat \<Rightarrow> int \<Rightarrow> int32_t list \<Rightarrow> bool \<Rightarrow> bool list \<Rightarrow> uint
    \<Rightarrow> error + (bool list \<times> nat \<times> nat \<times> uint)" where
  "process_ref_genotypes nsmpl ngt gt refAltSwap hapsRef w =
     (if ngt \<noteq> 2 * int nsmpl then Inl RefPloidy
      else if nsmpl = 0 then Inl DivisionByZero
      else ref_samples (nat (ngt div int nsmpl)) gt refAltSwap [0..<nsmpl] (hapsRef, 0, 0, w))"

subsection \<open>Target side: \<^verbatim>\<open>process_target_genotypes\<close>\<close>

fun target_alleles :: "int32_t list \<Rightarrow> bool \<times> uchar \<Rightarrow> error + (bool \<times> uchar)" where
  "target_alleles [] s = Inr s"
| "target_alleles (p # ps) (missing, g) =
     (if p = bcf_int32_vector_end then Inl TargetHaploid
      else if bcf_gt_is_missing p then target_alleles ps (True, g)
      else
        let idx = bcf_gt_allele p in
        if idx > 1 then Inl TargetMultiAllelic
        else target_alleles ps (missing, g + word_of_int idx))"

text \<open>The state of the sample loop is \<^verbatim>\<open>(genosTarget, numMissing)\<close>.\<close>

fun target_samples :: "nat \<Rightarrow> int32_t list \<Rightarrow> nat list \<Rightarrow> uchar list \<times> nat
    \<Rightarrow> error + (uchar list \<times> nat)" where
  "target_samples ploidy gt [] s = Inr s"
| "target_samples ploidy gt (i # is) (genosTarget, numMissing) =
     (case target_alleles (take ploidy (drop (i * ploidy) gt)) (False, 0) of
        Inl e \<Rightarrow> Inl e
      | Inr (missing, g) \<Rightarrow>
          if missing then target_samples ploidy gt is (genosTarget @ [9], numMissing + 1)
          else target_samples ploidy gt is (genosTarget @ [g], numMissing))"

definition process_target_genotypes :: "nat \<Rightarrow> int \<Rightarrow> int32_t list \<Rightarrow> uchar list
    \<Rightarrow> error + (uchar list \<times> nat)" where
  "process_target_genotypes nsmpl ngt gt genosTarget =
     (if ngt \<noteq> 2 * int nsmpl then Inl TargetPloidy
      else if nsmpl = 0 then Inl DivisionByZero
      else target_samples (nat (ngt div int nsmpl)) gt [0..<nsmpl] (genosTarget, 0))"

section \<open>Synchronised reading: \<^verbatim>\<open>SyncedVcfData::processVcfs\<close>\<close>

text \<open>
  What the code reads off a record \<^verbatim>\<open>bcf1_t\<close>: its contig id, position, allele count and
  allele strings (\<^verbatim>\<open>d.allele\<close>), and what \<^verbatim>\<open>bcf_get_genotypes\<close> returns for it (the
  count and the array).
\<close>

record bcf1_t =
  rid :: int
  pos :: int
  n_allele :: nat
  allele :: "string list"
  ngenotypes :: int
  genotypes :: "int32_t list"

text \<open>
  The synced reader as the code sees it: whether the region and the two files could be
  set up, the sample counts of the two headers, the number that \<^verbatim>\<open>sscanf("%d")\<close> reads
  off the name of a contig (\<open>None\<close> when it reads none), and the joined lines that
  \<^verbatim>\<open>bcf_sr_next_line\<close> yields, each with the reference and the target record
  (\<open>None\<close> for a null pointer).
\<close>

record bcf_srs_t =
  set_regions_ok :: bool
  add_ref_ok :: bool
  add_tgt_ok :: bool
  ref_nsamples :: nat
  tgt_nsamples :: nat
  contig_number :: "int \<Rightarrow> int option"
  sr_lines :: "(bcf1_t option \<times> bcf1_t option) list"

text \<open>
  The variables of \<^verbatim>\<open>processVcfs\<close> that live across the loop, with the members
  \<^verbatim>\<open>Nref\<close>, \<^verbatim>\<open>Ntarget\<close>, \<^verbatim>\<open>M\<close> and the two vectors passed by reference; \<open>s_out\<close> is
  the sequence of records written to the output file. The fields carry the prefix \<open>s_\<close>
  to keep the names of the source free for variables. Counters are naturals.
\<close>

record vcf_state =
  s_Nref :: nat
  s_Ntarget :: nat
  s_M :: nat
  s_MtargetOnly :: nat
  s_MrefOnly :: nat
  s_MmultiAllelic :: nat
  s_Mmonomorphic :: nat
  s_MwithMissingRef :: nat
  s_MwithUnphasedRef :: nat
  s_MrefAltError :: nat
  s_numRefAltSwaps :: nat
  s_GmissingRef :: nat
  s_GunphasedRef :: nat
  s_GmissingTarget :: nat
  s_w :: uint
  s_prev_rid :: int
  s_chrom :: int
  s_chrBps :: "(int \<times> int) list"
  s_hapsRef :: "bool list"
  s_genosTarget :: "uchar list"
  s_out :: "bcf1_t list"

definition vcf_init :: "bcf_srs_t \<Rightarrow> int \<Rightarrow> vcf_state" where
  "vcf_init sr chrom =
     \<lparr> s_Nref = ref_nsamples sr, s_Ntarget = tgt_nsamples sr, s_M = 0,
       s_MtargetOnly = 0, s_MrefOnly = 0, s_MmultiAllelic = 0, s_Mmonomorphic = 0,
       s_MwithMissingRef = 0, s_MwithUnphasedRef = 0, s_MrefAltError = 0,
       s_numRefAltSwaps = 0, s_GmissingRef = 0, s_GunphasedRef = 0, s_GmissingTarget = 0,
       s_w = 521288629, s_prev_rid = - 1, s_chrom = chrom, s_chrBps = [],
       s_hapsRef = [], s_genosTarget = [], s_out = [] \<rparr>"

text \<open>How one pass through the loop body ends.\<close>

datatype 'a flow =
    Next 'a       \<comment> \<open>\<^verbatim>\<open>continue\<close>, or the end of the body\<close>
  | Break 'a      \<comment> \<open>\<^verbatim>\<open>break\<close>\<close>
  | Exit error    \<comment> \<open>\<^verbatim>\<open>exit(1)\<close>\<close>

text \<open>
  The block under \<^verbatim>\<open>if (allowRefAltSwap)\<close>: \<open>Inl\<close> is the \<^verbatim>\<open>continue\<close> after counting
  an error, \<open>Inr\<close> carries \<^verbatim>\<open>refAltSwap\<close>. \<^verbatim>\<open>strcmp(a, b) == 0\<close> is equality of the
  strings.
\<close>

definition vcf_reconcile :: "bool \<Rightarrow> bcf1_t \<Rightarrow> bcf1_t \<Rightarrow> vcf_state
    \<Rightarrow> vcf_state + (bool \<times> vcf_state)" where
  "vcf_reconcile allowRefAltSwap ref tgt st =
     (if allowRefAltSwap then
        (if n_allele tgt \<noteq> 2 \<or> n_allele ref \<noteq> 2
         then Inl (st\<lparr>s_MrefAltError := s_MrefAltError st + 1\<rparr>)
         else if allele tgt ! 0 = allele ref ! 0 \<and> allele tgt ! 1 = allele ref ! 1
         then Inr (False, st)
         else if allele tgt ! 0 = allele ref ! 1 \<and> allele tgt ! 1 = allele ref ! 0
         then Inr (True, st\<lparr>s_numRefAltSwaps := s_numRefAltSwaps st + 1\<rparr>)
         else Inl (st\<lparr>s_MrefAltError := s_MrefAltError st + 1\<rparr>))
      else Inr (False, st))"

text \<open>The chromosome check; \<^verbatim>\<open>sscanf\<close> leaves \<^verbatim>\<open>chrom\<close> (which is 0 there) when it reads nothing.\<close>

definition vcf_chrom_gate :: "bcf_srs_t \<Rightarrow> bcf1_t \<Rightarrow> vcf_state \<Rightarrow> vcf_state flow" where
  "vcf_chrom_gate sr tgt st =
     (let r =
        (if s_prev_rid st < 0 then
           (let st1 = st\<lparr>s_prev_rid := rid tgt\<rparr> in
            if s_chrom st1 = 0 then
              (let c = (case contig_number sr (rid tgt) of None \<Rightarrow> s_chrom st1 | Some c \<Rightarrow> c) in
               if \<not> (c \<ge> 1 \<and> c \<le> 22) then Exit InvalidChromosome
               else Next (st1\<lparr>s_chrom := c\<rparr>))
            else Next st1)
         else Next st)
      in case r of
           Next st2 \<Rightarrow> if s_prev_rid st2 \<noteq> rid tgt then Break st2 else Next st2
         | other \<Rightarrow> other)"

text \<open>The rest of the body, for a record that passes the checks.\<close>

definition vcf_accept :: "bcf1_t \<Rightarrow> bcf1_t \<Rightarrow> bool \<Rightarrow> vcf_state \<Rightarrow> vcf_state flow" where
  "vcf_accept ref tgt refAltSwap st =
     (let st1 = st\<lparr>s_M := s_M st + 1, s_chrBps := s_chrBps st @ [(s_chrom st, pos tgt + 1)]\<rparr> in
      case process_ref_genotypes (s_Nref st1) (ngenotypes ref) (genotypes ref) refAltSwap
             (s_hapsRef st1) (s_w st1) of
        Inl e \<Rightarrow> Exit e
      | Inr (hapsRef', numMissing, numUnphased, w') \<Rightarrow>
          (let st2 = st1\<lparr>s_hapsRef := hapsRef', s_w := w',
                 s_MwithMissingRef := s_MwithMissingRef st1 + (if numMissing \<noteq> 0 then 1 else 0),
                 s_MwithUnphasedRef := s_MwithUnphasedRef st1 + (if numUnphased \<noteq> 0 then 1 else 0),
                 s_GmissingRef := s_GmissingRef st1 + numMissing,
                 s_GunphasedRef := s_GunphasedRef st1 + numUnphased\<rparr> in
           case process_target_genotypes (s_Ntarget st2) (ngenotypes tgt) (genotypes tgt)
                  (s_genosTarget st2) of
             Inl e \<Rightarrow> Exit e
           | Inr (genosTarget', numMissing') \<Rightarrow>
               Next (st2\<lparr>s_genosTarget := genosTarget',
                        s_GmissingTarget := s_GmissingTarget st2 + numMissing',
                        s_out := s_out st2 @ [tgt]\<rparr>)))"

text \<open>The body of \<^verbatim>\<open>while ( bcf_sr_next_line(sr) )\<close> for one joined line.\<close>

definition vcf_line :: "bcf_srs_t \<Rightarrow> bool \<Rightarrow> vcf_state \<Rightarrow> bcf1_t option \<times> bcf1_t option
    \<Rightarrow> vcf_state flow" where
  "vcf_line sr allowRefAltSwap st l =
     (case fst l of
        None \<Rightarrow> Next (st\<lparr>s_MtargetOnly := s_MtargetOnly st + 1\<rparr>)
      | Some ref \<Rightarrow>
     (case snd l of
        None \<Rightarrow> Next (st\<lparr>s_MrefOnly := s_MrefOnly st + 1\<rparr>)
      | Some tgt \<Rightarrow>
          if n_allele tgt > 2 then Next (st\<lparr>s_MmultiAllelic := s_MmultiAllelic st + 1\<rparr>)
          else if n_allele tgt < 2 then Next (st\<lparr>s_Mmonomorphic := s_Mmonomorphic st + 1\<rparr>)
          else
            (case vcf_reconcile allowRefAltSwap ref tgt st of
               Inl st1 \<Rightarrow> Next st1
             | Inr (refAltSwap, st1) \<Rightarrow>
                 (case vcf_chrom_gate sr tgt st1 of
                    Next st2 \<Rightarrow> vcf_accept ref tgt refAltSwap st2
                  | other \<Rightarrow> other))))"

fun vcf_loop :: "bcf_srs_t \<Rightarrow> bool \<Rightarrow> vcf_state \<Rightarrow> (bcf1_t option \<times> bcf1_t option) list
    \<Rightarrow> error + vcf_state" where
  "vcf_loop sr allowRefAltSwap st [] = Inr st"
| "vcf_loop sr allowRefAltSwap st (l # ls) =
     (case vcf_line sr allowRefAltSwap st l of
        Exit e \<Rightarrow> Inl e
      | Break st' \<Rightarrow> Inr st'
      | Next st' \<Rightarrow> vcf_loop sr allowRefAltSwap st' ls)"

text \<open>
  \<^verbatim>\<open>processVcfs\<close>: the set-up of the reader, the loop, and the check on \<^verbatim>\<open>M\<close>. The
  returned state holds \<^verbatim>\<open>chrBps\<close> and the two filled vectors.
\<close>

definition processVcfs :: "bcf_srs_t \<Rightarrow> bool \<Rightarrow> int \<Rightarrow> error + vcf_state" where
  "processVcfs sr allowRefAltSwap chrom =
     (if chrom \<noteq> 0 \<and> \<not> set_regions_ok sr then Inl RegionInit
      else if \<not> add_ref_ok sr then Inl OpenRef
      else if \<not> add_tgt_ok sr then Inl OpenTarget
      else
        (case vcf_loop sr allowRefAltSwap (vcf_init sr chrom) (sr_lines sr) of
           Inl e \<Rightarrow> Inl e
         | Inr st \<Rightarrow> if s_M st \<le> 1 then Inl TooFewSNPs else Inr st))"

section \<open>Segmenting and packing: \<^verbatim>\<open>SyncedVcfData::buildGenoBits\<close>\<close>

text \<open>
  Modelled from the spec: the struct \<^verbatim>\<open>uint64_masks\<close> of \<^verbatim>\<open>Types.hpp\<close>, which is not
  among the sources. The spec gives it three 64-bit masks, \<^verbatim>\<open>is0\<close>, \<^verbatim>\<open>is2\<close> and
  \<^verbatim>\<open>is9\<close>, and the code uses exactly these fields.
\<close>

record uint64_masks =
  is0 :: uint64
  is2 :: uint64
  is9 :: uint64

subsection \<open>The segmentation loop\<close>

text \<open>
  The coordinates are \<^verbatim>\<open>double\<close>s. The loop only adds two of them and compares the
  result with a third, so it is written for any type with an addition and an order; what
  is proved of it holds whatever the two operations do.

  The state of the loop is \<^verbatim>\<open>(seg64snpInds, seg64cMvecs, snpInds, cMvec)\<close>.
\<close>

definition segMin :: nat where
  "segMin = 16"

definition seg_step :: "'c::{plus,ord} list \<Rightarrow> 'c \<Rightarrow> nat
    \<Rightarrow> nat list list \<times> 'c list list \<times> nat list \<times> 'c list
    \<Rightarrow> nat list list \<times> 'c list list \<times> nat list \<times> 'c list" where
  "seg_step cMs cMmax m s =
     (case s of (seg64snpInds, seg64cMvecs, snpInds, cMvec) \<Rightarrow>
        if length cMvec = 64 \<or> (length cMvec \<ge> segMin \<and> cMs ! m > cMvec ! 0 + cMmax)
        then (seg64snpInds @ [snpInds], seg64cMvecs @ [cMvec], [m], [cMs ! m])
        else (seg64snpInds, seg64cMvecs, snpInds @ [m], cMvec @ [cMs ! m]))"

definition segments :: "'c::{plus,ord} list \<Rightarrow> 'c \<Rightarrow> nat \<Rightarrow> nat list list \<times> 'c list list" where
  "segments cMs cMmax M =
     (case fold (seg_step cMs cMmax) [0..<M] ([], [], [], []) of
        (seg64snpInds, seg64cMvecs, snpInds, cMvec) \<Rightarrow>
          (seg64snpInds @ [snpInds], seg64cMvecs @ [cMvec]))"

subsection \<open>Packing\<close>

text \<open>The two statements of the loop over the reference haplotypes, for one \<^verbatim>\<open>n\<close>.\<close>

definition store_ref :: "nat \<Rightarrow> nat \<Rightarrow> bool list \<Rightarrow> nat \<Rightarrow> nat \<Rightarrow> nat \<Rightarrow> nat
    \<Rightarrow> uint64_masks list \<Rightarrow> uint64_masks list" where
  "store_ref Nref N hapsRef m64 j m n genoBits =
     (let haps0 = hapsRef ! (m * 2 * Nref + 2 * n);
          haps1 = hapsRef ! (m * 2 * Nref + 2 * n + 1);
          k = m64 * N + n;
          b = genoBits ! k
      in genoBits[k := b\<lparr>is0 := is0 b OR push_bit j (of_bool haps0),
                          is2 := is2 b OR push_bit j (of_bool haps1)\<rparr>])"

text \<open>The three statements of the loop over the target genotypes, for one \<^verbatim>\<open>n\<close>.\<close>

definition store_target :: "nat \<Rightarrow> nat \<Rightarrow> nat \<Rightarrow> uchar list \<Rightarrow> nat \<Rightarrow> nat \<Rightarrow> nat \<Rightarrow> nat
    \<Rightarrow> uint64_masks list \<Rightarrow> uint64_masks list" where
  "store_target Nref Ntarget N genosTarget m64 j m n genoBits =
     (let geno = genosTarget ! (m * Ntarget + n - Nref);
          k = m64 * N + n;
          b = genoBits ! k
      in genoBits[k := b\<lparr>is0 := is0 b OR push_bit j (of_bool (geno = 0)),
                          is2 := is2 b OR push_bit j (of_bool (geno = 2)),
                          is9 := is9 b OR push_bit j (of_bool (geno = 9))\<rparr>])"

text \<open>The statement of the padding loop, \<^verbatim>\<open>genoBits[m64*N+n].is9 |= 1ULL<<j\<close>.\<close>

definition store_pad :: "nat \<Rightarrow> nat \<Rightarrow> nat \<Rightarrow> nat \<Rightarrow> uint64_masks list \<Rightarrow> uint64_masks list" where
  "store_pad N m64 n j genoBits =
     (let k = m64 * N + n; b = genoBits ! k
      in genoBits[k := b\<lparr>is9 := is9 b OR push_bit j 1\<rparr>])"

text \<open>The body of the loop over \<^verbatim>\<open>j\<close>: variant \<^verbatim>\<open>m\<close> at local position \<^verbatim>\<open>j\<close>.\<close>

definition pack_variant :: "nat \<Rightarrow> nat \<Rightarrow> bool list \<Rightarrow> uchar list \<Rightarrow> nat \<Rightarrow> nat list \<Rightarrow> nat
    \<Rightarrow> uint64_masks list \<Rightarrow> uint64_masks list" where
  "pack_variant Nref Ntarget hapsRef genosTarget m64 snpInds j genoBits =
     (let N = Nref + Ntarget; m = snpInds ! j in
      fold (store_target Nref Ntarget N genosTarget m64 j m) [Nref..<N]
        (fold (store_ref Nref N hapsRef m64 j m) [0..<Nref] genoBits))"

text \<open>The body of the loop over \<^verbatim>\<open>m64\<close>: the variants of the segment, then the padding.\<close>

definition pack_segment :: "nat \<Rightarrow> nat \<Rightarrow> bool list \<Rightarrow> uchar list \<Rightarrow> nat list list \<Rightarrow> nat
    \<Rightarrow> uint64_masks list \<Rightarrow> uint64_masks list" where
  "pack_segment Nref Ntarget hapsRef genosTarget seg64snpInds m64 genoBits =
     (let N = Nref + Ntarget; snpInds = seg64snpInds ! m64 in
      fold (\<lambda>n. fold (store_pad N m64 n) [length snpInds..<64]) [0..<N]
        (fold (pack_variant Nref Ntarget hapsRef genosTarget m64 snpInds)
           [0..<length snpInds] genoBits))"

text \<open>
  Modelled from the spec: the members \<^verbatim>\<open>Mseg64\<close>, \<^verbatim>\<open>seg64cMvecs\<close> and
  \<^verbatim>\<open>genoBits\<close> of the class (declared in \<^verbatim>\<open>SyncedVcfData.hpp\<close>, not among the
  sources) and the allocation macro of \<^verbatim>\<open>MemoryUtils.hpp\<close>: the spec has one mask
  triple per segment and individual, and the code allocates and zeroes
  \<^verbatim>\<open>Mseg64 * N\<close> elements. The record holds what \<^verbatim>\<open>buildGenoBits\<close> leaves in the
  object, with the local \<^verbatim>\<open>seg64snpInds\<close> kept beside it; \<^verbatim>\<open>seg64cMvecs\<close> is empty
  when the function is entered.
\<close>

record 'c packed =
  p_seg64snpInds :: "nat list list"
  p_seg64cMvecs :: "'c list list"
  p_Mseg64 :: nat
  p_genoBits :: "uint64_masks list"

definition buildGenoBits :: "nat \<Rightarrow> nat \<Rightarrow> nat \<Rightarrow> bool list \<Rightarrow> uchar list
    \<Rightarrow> 'c::{plus,ord} list \<Rightarrow> 'c \<Rightarrow> 'c packed" where
  "buildGenoBits Nref Ntarget M hapsRef genosTarget cMs cMmax =
     (case segments cMs cMmax M of (seg64snpInds, seg64cMvecs) \<Rightarrow>
        let Mseg64 = length seg64snpInds;
            N = Nref + Ntarget;
            genoBits0 = replicate (Mseg64 * N) \<lparr>is0 = 0, is2 = 0, is9 = 0\<rparr>
        in \<lparr> p_seg64snpInds = seg64snpInds, p_seg64cMvecs = seg64cMvecs, p_Mseg64 = Mseg64,
             p_genoBits =
               fold (pack_segment Nref Ntarget hapsRef genosTarget seg64snpInds)
                 [0..<Mseg64] genoBits0 \<rparr>)"

section \<open>The constructor \<^verbatim>\<open>SyncedVcfData::SyncedVcfData\<close>\<close>

text \<open>
  The genetic coordinates are \<^verbatim>\<open>double\<close>s. As in the segmentation loop, nothing is
  assumed of their arithmetic: the constructor is written for any type \<open>'c\<close> with a
  zero, an addition, a subtraction, a multiplication and an order, which stand for the
  rounded operations of the machine, and \<open>hundred\<close> stands for the \<^verbatim>\<open>double\<close> to which
  the constant \<^verbatim>\<open>100\<close> is converted. What is proved holds whatever these operations
  do, under the hypotheses that a theorem states.

  \<^verbatim>\<open>processMap\<close>. The interpolater of the genetic map (\<^verbatim>\<open>MapInterpolater.hpp\<close>, not
  among the sources) is a parameter: a function from chromosome and position to Morgans.
\<close>

definition processMap :: "'c::times \<Rightarrow> (int \<Rightarrow> int \<Rightarrow> 'c) \<Rightarrow> (int \<times> int) list \<Rightarrow> 'c list" where
  "processMap hundred interp chrBps = map (\<lambda>p. hundred * interp (fst p) (snd p)) chrBps"

text \<open>
  The loop that sums the two ranges, over \<^verbatim>\<open>m\<close> with \<^verbatim>\<open>m+1 < chrBps.size()\<close>; the state
  is \<^verbatim>\<open>(physRange, cMrange)\<close>, the first a \<^verbatim>\<open>uint64\<close> to which the difference of two
  positions is converted, the second the sum, in the order of the loop, of the
  differences of neighbouring coordinates.
\<close>

definition range_step :: "(int \<times> int) list \<Rightarrow> 'c::{plus,minus} list \<Rightarrow> nat
    \<Rightarrow> uint64 \<times> 'c \<Rightarrow> uint64 \<times> 'c" where
  "range_step chrBps cMs m s =
     (case s of (physRange, cMrange) \<Rightarrow>
        if fst (chrBps ! (m + 1)) = fst (chrBps ! m)
        then (physRange + word_of_int (snd (chrBps ! (m + 1)) - snd (chrBps ! m)),
              cMrange + (cMs ! (m + 1) - cMs ! m))
        else (physRange, cMrange))"

definition ranges :: "(int \<times> int) list \<Rightarrow> 'c::{zero,plus,minus} list \<Rightarrow> uint64 \<times> 'c" where
  "ranges chrBps cMs = fold (range_step chrBps cMs) [0..<length chrBps - 1] (0, 0)"

definition SyncedVcfData :: "bcf_srs_t \<Rightarrow> bool \<Rightarrow> int \<Rightarrow> 'c::{zero,plus,minus,times,ord}
    \<Rightarrow> (int \<Rightarrow> int \<Rightarrow> 'c) \<Rightarrow> 'c \<Rightarrow> error + (vcf_state \<times> 'c packed)" where
  "SyncedVcfData sr allowRefAltSwap chrom hundred interp cMmax =
     (case processVcfs sr allowRefAltSwap chrom of
        Inl e \<Rightarrow> Inl e
      | Inr st \<Rightarrow>
          (let chrBps = s_chrBps st;
               cMs = processMap hundred interp chrBps;
               (physRange, cMrange) = ranges chrBps cMs
           in if physRange = 0 \<or> cMrange = 0 then Inl ZeroRange
              else Inr (st, buildGenoBits (s_Nref st) (s_Ntarget st) (s_M st) (s_hapsRef st)
                              (s_genosTarget st) cMs cMmax)))"

section \<open>Notions used in the statements\<close>

subsection \<open>Samples of a diploid genotype array\<close>

text \<open>
  Sample \<open>i\<close> of an array with two values per sample owns the entries \<open>2 * i\<close> and
  \<open>2 * i + 1\<close>. A sample is missing when either value is a missing allele; it is
  unphased when it is not missing and its second value does not carry the phase bit;
  \<open>hap\<close> is the haplotype boolean of one entry (false for the reference allele, true for
  any alternate one).
\<close>

definition sample_missing :: "int32_t list \<Rightarrow> nat \<Rightarrow> bool" where
  "sample_missing gt i = (bcf_gt_is_missing (gt ! (2 * i)) \<or> bcf_gt_is_missing (gt ! Suc (2 * i)))"

definition sample_unphased :: "int32_t list \<Rightarrow> nat \<Rightarrow> bool" where
  "sample_unphased gt i = (\<not> sample_missing gt i \<and> \<not> bcf_gt_is_phased (gt ! Suc (2 * i)))"

definition hap :: "int32_t list \<Rightarrow> nat \<Rightarrow> bool" where
  "hap gt k = (bcf_gt_allele (gt ! k) \<ge> 1)"

definition sample_het_unphased :: "int32_t list \<Rightarrow> nat \<Rightarrow> bool" where
  "sample_het_unphased gt i = (sample_unphased gt i \<and> hap gt (2 * i) \<noteq> hap gt (Suc (2 * i)))"

text \<open>
  A value that the target encoder accepts: not the vector-end sentinel, and either a
  missing allele or a value with allele index 0 or 1.
\<close>

definition biallelic_call :: "int32_t \<Rightarrow> bool" where
  "biallelic_call v =
     (v \<noteq> bcf_int32_vector_end \<and>
      (bcf_gt_is_missing v \<or> bcf_gt_allele v = 0 \<or> bcf_gt_allele v = 1))"

text \<open>The code of target sample \<open>i\<close>, in closed form.\<close>

definition target_code :: "int32_t list \<Rightarrow> nat \<Rightarrow> uchar" where
  "target_code gt i =
     (if sample_missing gt i then 9
      else word_of_int (bcf_gt_allele (gt ! (2 * i))) + word_of_int (bcf_gt_allele (gt ! Suc (2 * i))))"

text \<open>
  The two booleans of reference sample \<open>i\<close> when the generator state before the sample
  is \<open>w\<close>, and the booleans of a run of samples, threading the state.
\<close>

definition ref_call :: "bool \<Rightarrow> int32_t list \<Rightarrow> nat \<Rightarrow> uint \<Rightarrow> bool list" where
  "ref_call refAltSwap gt i w =
     (if sample_missing gt i then [refAltSwap, refAltSwap]
      else if sample_het_unphased gt i \<and> mwc w AND 1 \<noteq> 0
        then [hap gt (Suc (2 * i)) \<noteq> refAltSwap, hap gt (2 * i) \<noteq> refAltSwap]
      else [hap gt (2 * i) \<noteq> refAltSwap, hap gt (Suc (2 * i)) \<noteq> refAltSwap])"

fun ref_run :: "bool \<Rightarrow> int32_t list \<Rightarrow> nat list \<Rightarrow> uint \<Rightarrow> bool list" where
  "ref_run refAltSwap gt [] w = []"
| "ref_run refAltSwap gt (i # is) w =
     ref_call refAltSwap gt i w @
     ref_run refAltSwap gt is (if sample_het_unphased gt i then mwc w else w)"

subsection \<open>The state of a run\<close>

text \<open>
  What the loop of \<^verbatim>\<open>processVcfs\<close> maintains: \<^verbatim>\<open>M\<close> counts the entries of
  \<^verbatim>\<open>chrBps\<close>, every entry carries the current chromosome number, and that number is
  set once a contig id has been recorded or a variant accepted.
\<close>

definition run_inv :: "vcf_state \<Rightarrow> bool" where
  "run_inv st =
     (s_M st = length (s_chrBps st)
      \<and> (\<forall>p\<in>set (s_chrBps st). fst p = s_chrom st)
      \<and> (s_prev_rid st \<ge> 0 \<or> s_chrBps st \<noteq> [] \<longrightarrow> s_chrom st \<noteq> 0))"

text \<open>
  A value of the genotype encoding is non-negative or the vector-end sentinel. A joined
  line is well encoded when the array of its target record holds such values, in the
  number that \<^verbatim>\<open>bcf_get_genotypes\<close> reports. The last notion is what the loop maintains
  of the target codes on such lines.
\<close>

definition encoded_call :: "int32_t \<Rightarrow> bool" where
  "encoded_call v = (0 \<le> v \<or> v = bcf_int32_vector_end)"

definition encoded_line :: "bcf1_t option \<times> bcf1_t option \<Rightarrow> bool" where
  "encoded_line l =
     (case snd l of
        None \<Rightarrow> True
      | Some tgt \<Rightarrow>
          int (length (genotypes tgt)) = ngenotypes tgt
          \<and> (\<forall>v\<in>set (genotypes tgt). encoded_call v))"

definition codes_inv :: "vcf_state \<Rightarrow> bool" where
  "codes_inv st =
     (length (s_genosTarget st) = s_M st * s_Ntarget st
      \<and> (\<forall>c\<in>set (s_genosTarget st). c \<in> {0, 1, 2, 9}))"

subsection \<open>Segments\<close>

text \<open>
  The test of the segmentation loop, for a segment that starts at variant \<open>first\<close> and
  holds \<open>n\<close> variants when variant \<open>m\<close> comes next: the segment is full, or it
  has at least \<^verbatim>\<open>segMin\<close> variants and the coordinate of \<open>m\<close> is greater than
  that of \<open>first\<close> plus \<^verbatim>\<open>cMmax\<close>.
\<close>

definition boundary :: "'c::{plus,ord} list \<Rightarrow> 'c \<Rightarrow> nat \<Rightarrow> nat \<Rightarrow> nat \<Rightarrow> bool" where
  "boundary cMs cMmax first n m =
     (n = 64 \<or> (segMin \<le> n \<and> cMs ! m > cMs ! first + cMmax))"

text \<open>
  What holds of the segments (the closed ones followed by the one being filled) when the
  loop has taken \<open>m\<close> variants.
\<close>

definition seg_inv :: "'c::{plus,ord} list \<Rightarrow> 'c \<Rightarrow> nat \<Rightarrow> nat list list \<Rightarrow> bool" where
  "seg_inv cMs cMmax m segs =
     (segs \<noteq> []
      \<and> concat segs = [0..<m]
      \<and> (\<forall>seg\<in>set (butlast segs). seg \<noteq> [])
      \<and> (0 < m \<longrightarrow> last segs \<noteq> [])
      \<and> (\<forall>seg\<in>set segs. length seg \<le> 64)
      \<and> (\<forall>k. Suc k < length segs \<longrightarrow>
            boundary cMs cMmax (segs ! k ! 0) (length (segs ! k)) (segs ! Suc k ! 0))
      \<and> (\<forall>seg\<in>set segs. \<forall>j. 0 < j \<and> j < length seg \<longrightarrow>
            \<not> boundary cMs cMmax (seg ! 0) j (seg ! j)))"

definition seg_state :: "'c::{plus,ord} list \<Rightarrow> 'c \<Rightarrow> nat
    \<Rightarrow> nat list list \<times> 'c list list \<times> nat list \<times> 'c list \<Rightarrow> bool" where
  "seg_state cMs cMmax m s =
     (case s of (seg64snpInds, seg64cMvecs, snpInds, cMvec) \<Rightarrow>
        seg64cMvecs = map (map ((!) cMs)) seg64snpInds
        \<and> cMvec = map ((!) cMs) snpInds
        \<and> seg_inv cMs cMmax m (seg64snpInds @ [snpInds]))"

subsection \<open>One element of the packed array\<close>

text \<open>
  What the loops of \<^verbatim>\<open>buildGenoBits\<close> do to the element of one individual \<open>n\<close>
  of one segment: the update for a reference haplotype pair, the update for a target
  genotype, both at local position \<open>j\<close>, the padding of one position, and all of them
  over a segment.
\<close>

definition cell_ref :: "nat \<Rightarrow> bool list \<Rightarrow> nat \<Rightarrow> nat \<Rightarrow> nat \<Rightarrow> uint64_masks \<Rightarrow> uint64_masks" where
  "cell_ref Nref hapsRef j m n b =
     b\<lparr>is0 := is0 b OR push_bit j (of_bool (hapsRef ! (m * 2 * Nref + 2 * n))),
       is2 := is2 b OR push_bit j (of_bool (hapsRef ! (m * 2 * Nref + 2 * n + 1)))\<rparr>"

definition cell_target :: "nat \<Rightarrow> nat \<Rightarrow> uchar list \<Rightarrow> nat \<Rightarrow> nat \<Rightarrow> nat \<Rightarrow> uint64_masks
    \<Rightarrow> uint64_masks" where
  "cell_target Nref Ntarget genosTarget j m n b =
     b\<lparr>is0 := is0 b OR push_bit j (of_bool (genosTarget ! (m * Ntarget + n - Nref) = 0)),
       is2 := is2 b OR push_bit j (of_bool (genosTarget ! (m * Ntarget + n - Nref) = 2)),
       is9 := is9 b OR push_bit j (of_bool (genosTarget ! (m * Ntarget + n - Nref) = 9))\<rparr>"

definition cell_variant :: "nat \<Rightarrow> nat \<Rightarrow> bool list \<Rightarrow> uchar list \<Rightarrow> nat list \<Rightarrow> nat \<Rightarrow> nat
    \<Rightarrow> uint64_masks \<Rightarrow> uint64_masks" where
  "cell_variant Nref Ntarget hapsRef genosTarget snpInds n j b =
     (if n < Nref then cell_ref Nref hapsRef j (snpInds ! j) n b
      else cell_target Nref Ntarget genosTarget j (snpInds ! j) n b)"

definition cell_pad :: "nat \<Rightarrow> uint64_masks \<Rightarrow> uint64_masks" where
  "cell_pad j b = b\<lparr>is9 := is9 b OR push_bit j 1\<rparr>"

definition cell_segment :: "nat \<Rightarrow> nat \<Rightarrow> bool list \<Rightarrow> uchar list \<Rightarrow> nat list \<Rightarrow> nat
    \<Rightarrow> uint64_masks \<Rightarrow> uint64_masks" where
  "cell_segment Nref Ntarget hapsRef genosTarget snpInds n b =
     fold cell_pad [length snpInds..<64]
       (fold (cell_variant Nref Ntarget hapsRef genosTarget snpInds n) [0..<length snpInds] b)"

section \<open>Properties of the genotype encoder\<close>

subsection \<open>One sample at a time\<close>

lemma take2_drop:
  "Suc (2 * i) < length gt \<Longrightarrow> take 2 (drop (i * 2) gt) = [gt ! (2 * i), gt ! Suc (2 * i)]"
  by (simp add: take_Suc_conv_app_nth numeral_2_eq_2 mult.commute)

lemma target_alleles_pair:
  assumes "biallelic_call a" "biallelic_call b"
  shows "target_alleles [a, b] (False, 0) =
     Inr (bcf_gt_is_missing a \<or> bcf_gt_is_missing b,
          (if bcf_gt_is_missing a then 0 else word_of_int (bcf_gt_allele a)) +
          (if bcf_gt_is_missing b then 0 else word_of_int (bcf_gt_allele b)))"
  using assms by (auto simp: biallelic_call_def Let_def)

lemma target_samples_step:
  assumes "Suc (2 * i) < length gt" "biallelic_call (gt ! (2 * i))" "biallelic_call (gt ! Suc (2 * i))"
  shows "target_samples 2 gt (i # is) (G, nm) =
     target_samples 2 gt is (G @ [target_code gt i], nm + (if sample_missing gt i then 1 else 0))"
  apply (subst target_samples.simps)
  apply (subst take2_drop[OF assms(1)])
  apply (subst target_alleles_pair[OF assms(2,3)])
  apply (simp add: target_code_def sample_missing_def)
  done

lemma target_samples_run:
  assumes "length gt = 2 * nsmpl" "\<forall>v\<in>set gt. biallelic_call v"
    and "\<forall>i\<in>set is. i < nsmpl"
  shows "target_samples 2 gt is (G, nm) =
     Inr (G @ map (target_code gt) is, nm + length (filter (sample_missing gt) is))"
  using assms(3)
proof (induction "is" arbitrary: G nm)
  case Nil
  then show ?case by simp
next
  case (Cons i "is")
  then have i: "i < nsmpl" by simp
  then have r: "Suc (2 * i) < length gt" "2 * i < length gt"
    using assms(1) by auto
  have d: "biallelic_call (gt ! (2 * i))" "biallelic_call (gt ! Suc (2 * i))"
    using assms(2) r nth_mem by blast+
  have "target_samples 2 gt (i # is) (G, nm) =
     target_samples 2 gt is (G @ [target_code gt i], nm + (if sample_missing gt i then 1 else 0))"
    by (rule target_samples_step[OF r(1) d])
  also have "\<dots> = Inr ((G @ [target_code gt i]) @ map (target_code gt) is,
      (nm + (if sample_missing gt i then 1 else 0)) + length (filter (sample_missing gt) is))"
    using Cons by simp
  finally show ?case by simp
qed

lemma target_code_cases:
  assumes "biallelic_call a" "biallelic_call b" "\<not> bcf_gt_is_missing a" "\<not> bcf_gt_is_missing b"
  shows "uint (word_of_int (bcf_gt_allele a) + word_of_int (bcf_gt_allele b) :: uchar) =
           bcf_gt_allele a + bcf_gt_allele b
       \<and> (word_of_int (bcf_gt_allele a) + word_of_int (bcf_gt_allele b) :: uchar) \<in> {0, 1, 2}"
  using assms by (auto simp: biallelic_call_def)

lemma ref_alleles_pair:
  assumes "a \<noteq> bcf_int32_vector_end" "b \<noteq> bcf_int32_vector_end"
  shows "ref_alleles [a, b] 0 ([False, False], False, False) =
     Inr ([\<not> bcf_gt_is_missing a \<and> bcf_gt_allele a \<ge> 1, \<not> bcf_gt_is_missing b \<and> bcf_gt_allele b \<ge> 1],
          bcf_gt_is_missing a \<or> bcf_gt_is_missing b,
          \<not> bcf_gt_is_missing b \<and> \<not> bcf_gt_is_phased b)"
  using assms by (auto simp: Let_def)

lemma ref_samples_step:
  assumes "Suc (2 * i) < length gt" "gt ! (2 * i) \<noteq> bcf_int32_vector_end"
    "gt ! Suc (2 * i) \<noteq> bcf_int32_vector_end"
  shows "ref_samples 2 gt refAltSwap (i # is) (H, nm, nu, w) =
     ref_samples 2 gt refAltSwap is
       (H @ ref_call refAltSwap gt i w,
        nm + (if sample_missing gt i then 1 else 0),
        nu + (if sample_unphased gt i then 1 else 0),
        (if sample_het_unphased gt i then mwc w else w))"
  apply (subst ref_samples.simps)
  apply (subst take2_drop[OF assms(1)])
  apply (subst ref_alleles_pair[OF assms(2,3)])
  apply (auto simp add: ref_policy_def ref_call_def sample_missing_def sample_unphased_def
      sample_het_unphased_def hap_def Let_def)
  done

lemma ref_samples_run:
  assumes "length gt = 2 * nsmpl" "\<forall>v\<in>set gt. v \<noteq> bcf_int32_vector_end"
    and "\<forall>i\<in>set is. i < nsmpl"
  shows "ref_samples 2 gt refAltSwap is (H, nm, nu, w) =
     Inr (H @ ref_run refAltSwap gt is w,
          nm + length (filter (sample_missing gt) is),
          nu + length (filter (sample_unphased gt) is),
          (mwc ^^ length (filter (sample_het_unphased gt) is)) w)"
  using assms(3)
proof (induction "is" arbitrary: H nm nu w)
  case Nil
  then show ?case by simp
next
  case (Cons i "is")
  then have i: "i < nsmpl" by simp
  then have r: "Suc (2 * i) < length gt" "2 * i < length gt"
    using assms(1) by auto
  have d: "gt ! (2 * i) \<noteq> bcf_int32_vector_end" "gt ! Suc (2 * i) \<noteq> bcf_int32_vector_end"
    using assms(2) r nth_mem by blast+
  have ih: "\<And>H nm nu w. ref_samples 2 gt refAltSwap is (H, nm, nu, w) =
     Inr (H @ ref_run refAltSwap gt is w,
          nm + length (filter (sample_missing gt) is),
          nu + length (filter (sample_unphased gt) is),
          (mwc ^^ length (filter (sample_het_unphased gt) is)) w)"
    using Cons by simp
  show ?case
    by (simp only: ref_samples_step[OF r(1) d] ih) (simp add: funpow_swap1)
qed

lemma length_ref_call: "length (ref_call refAltSwap gt i w) = 2"
  by (simp add: ref_call_def)

lemma length_ref_run: "length (ref_run refAltSwap gt is w) = 2 * length is"
  by (induction "is" arbitrary: w) (simp_all add: length_ref_call)

lemma ref_run_nth:
  "p < length is \<Longrightarrow>
   take 2 (drop (2 * p) (ref_run refAltSwap gt is w)) =
     ref_call refAltSwap gt (is ! p)
       ((mwc ^^ length (filter (sample_het_unphased gt) (take p is))) w)"
proof (induction "is" arbitrary: p w)
  case Nil
  then show ?case by simp
next
  case (Cons i "is")
  show ?case
  proof (cases p)
    case 0
    then show ?thesis by (simp add: length_ref_call)
  next
    case (Suc q)
    then have q: "q < length is" using Cons.prems by simp
    show ?thesis
      using Cons.IH[OF q] by (simp add: Suc length_ref_call funpow_swap1)
  qed
qed


lemma process_ref_genotypes_run:
  assumes "0 < nsmpl" "ngt = 2 * int nsmpl" "length gt = 2 * nsmpl"
    "\<forall>v\<in>set gt. v \<noteq> bcf_int32_vector_end"
  shows "process_ref_genotypes nsmpl ngt gt refAltSwap H w =
     Inr (H @ ref_run refAltSwap gt [0..<nsmpl] w,
          length (filter (sample_missing gt) [0..<nsmpl]),
          length (filter (sample_unphased gt) [0..<nsmpl]),
          (mwc ^^ length (filter (sample_het_unphased gt) [0..<nsmpl])) w)"
proof -
  have p: "nat (ngt div int nsmpl) = 2" using assms(1,2) by simp
  show ?thesis
    unfolding process_ref_genotypes_def p
    using assms(1,2) ref_samples_run[OF assms(3,4), of "[0..<nsmpl]" refAltSwap H 0 0 w]
    by simp
qed

lemma ref_run_pair:
  assumes "i < nsmpl"
  shows "[ref_run refAltSwap gt [0..<nsmpl] w ! (2 * i), ref_run refAltSwap gt [0..<nsmpl] w ! Suc (2 * i)] =
     ref_call refAltSwap gt i ((mwc ^^ length (filter (sample_het_unphased gt) [0..<i])) w)"
proof -
  have l: "Suc (2 * i) < length (ref_run refAltSwap gt [0..<nsmpl] w)"
    using assms by (simp add: length_ref_run)
  have "take 2 (drop (2 * i) (ref_run refAltSwap gt [0..<nsmpl] w)) =
     ref_call refAltSwap gt i ((mwc ^^ length (filter (sample_het_unphased gt) [0..<i])) w)"
    using ref_run_nth[of i "[0..<nsmpl]" refAltSwap gt w] assms by simp
  moreover have "take 2 (drop (2 * i) (ref_run refAltSwap gt [0..<nsmpl] w)) =
     [ref_run refAltSwap gt [0..<nsmpl] w ! (2 * i), ref_run refAltSwap gt [0..<nsmpl] w ! Suc (2 * i)]"
    using l by (simp add: take_Suc_conv_app_nth numeral_2_eq_2)
  ultimately show ?thesis by simp
qed

subsection \<open>Target genotype codes\<close>

lemma process_target_genotypes_run:
  assumes "0 < nsmpl" "ngt = 2 * int nsmpl" "length gt = 2 * nsmpl"
    "\<forall>v\<in>set gt. biallelic_call v"
  shows "process_target_genotypes nsmpl ngt gt G =
     Inr (G @ map (target_code gt) [0..<nsmpl], length (filter (sample_missing gt) [0..<nsmpl]))"
proof -
  have p: "nat (ngt div int nsmpl) = 2" using assms(1,2) by simp
  show ?thesis
    unfolding process_target_genotypes_def p
    using assms(1,2) target_samples_run[OF assms(3,4), of "[0..<nsmpl]" G 0]
    by simp
qed

lemma target_code_value:
  assumes "length gt = 2 * nsmpl" "\<forall>v\<in>set gt. biallelic_call v" "i < nsmpl"
  shows "target_code gt i \<in> {0, 1, 2, 9} \<and>
     (if sample_missing gt i then target_code gt i = 9
      else uint (target_code gt i) = bcf_gt_allele (gt ! (2 * i)) + bcf_gt_allele (gt ! Suc (2 * i)))"
proof -
  have r: "Suc (2 * i) < length gt" "2 * i < length gt" using assms(1,3) by auto
  have d: "biallelic_call (gt ! (2 * i))" "biallelic_call (gt ! Suc (2 * i))"
    using assms(2) r nth_mem by blast+
  show ?thesis
  proof (cases "sample_missing gt i")
    case True
    then show ?thesis by (simp add: target_code_def)
  next
    case False
    then have m: "\<not> bcf_gt_is_missing (gt ! (2 * i))" "\<not> bcf_gt_is_missing (gt ! Suc (2 * i))"
      by (simp_all add: sample_missing_def)
    from target_code_cases[OF d m] False show ?thesis
      by (auto simp add: target_code_def)
  qed
qed

text \<open>The codes over a whole run, from what a successful call returns.\<close>

lemma target_alleles_success:
  assumes "target_alleles [a, b] (False, 0) = Inr (missing, g)"
    and "encoded_call a" "encoded_call b"
  shows "missing \<or> g \<in> {0, 1, 2}"
proof -
  have a: "a \<noteq> bcf_int32_vector_end" "b \<noteq> bcf_int32_vector_end"
    using assms(1) by (auto simp: Let_def split: if_splits)
  then have n: "0 \<le> a" "0 \<le> b" using assms(2,3) by (auto simp: encoded_call_def)
  have r: "\<And>v. 0 \<le> v \<Longrightarrow> \<not> bcf_gt_is_missing v \<Longrightarrow> \<not> 1 < bcf_gt_allele v \<Longrightarrow>
      bcf_gt_allele v = 0 \<or> bcf_gt_allele v = 1"
    unfolding bcf_gt_is_missing_def bcf_gt_allele_def by presburger
  show ?thesis
  proof (cases "bcf_gt_is_missing a \<or> bcf_gt_is_missing b")
    case True
    with assms(1) a show ?thesis by (auto simp: Let_def split: if_splits)
  next
    case False
    with assms(1) a have le: "\<not> 1 < bcf_gt_allele a" "\<not> 1 < bcf_gt_allele b"
      by (auto simp: Let_def split: if_splits)
    from False le assms(1) a have g: "g = word_of_int (bcf_gt_allele a) + word_of_int (bcf_gt_allele b)"
      by (auto simp: Let_def split: if_splits)
    from r[OF n(1)] r[OF n(2)] False le have
      "bcf_gt_allele a = 0 \<or> bcf_gt_allele a = 1" "bcf_gt_allele b = 0 \<or> bcf_gt_allele b = 1"
      by blast+
    with g show ?thesis by auto
  qed
qed

lemma target_samples_success:
  assumes "length gt = 2 * nsmpl" "\<forall>v\<in>set gt. encoded_call v"
  shows "target_samples 2 gt is (G, nm) = Inr (G', nm') \<Longrightarrow> \<forall>i\<in>set is. i < nsmpl \<Longrightarrow>
     \<exists>codes. G' = G @ codes \<and> length codes = length is \<and> (\<forall>c\<in>set codes. c \<in> {0, 1, 2, 9})"
proof (induction "is" arbitrary: G nm)
  case Nil
  then show ?case by simp
next
  case (Cons i "is")
  then have i: "i < nsmpl" by simp
  then have r: "Suc (2 * i) < length gt" "2 * i < length gt" using assms(1) by auto
  have e: "encoded_call (gt ! (2 * i))" "encoded_call (gt ! Suc (2 * i))"
    using assms(2) r nth_mem by blast+
  have t: "take 2 (drop (i * 2) gt) = [gt ! (2 * i), gt ! Suc (2 * i)]"
    using r(1) by (simp add: take_Suc_conv_app_nth numeral_2_eq_2 mult.commute)
  from Cons.prems(1) obtain missing g where
    a: "target_alleles [gt ! (2 * i), gt ! Suc (2 * i)] (False, 0) = Inr (missing, g)"
    unfolding target_samples.simps t by (auto split: sum.splits)
  let ?c = "if missing then 9 else g"
  from Cons.prems(1) a have
    s: "target_samples 2 gt is (G @ [?c], if missing then nm + 1 else nm) = Inr (G', nm')"
    unfolding target_samples.simps t by (auto split: if_splits)
  from Cons.IH[OF s] Cons.prems(2) obtain codes where
    c: "G' = (G @ [?c]) @ codes" "length codes = length is" "\<forall>c\<in>set codes. c \<in> {0, 1, 2, 9}"
    by auto
  have "?c \<in> {0, 1, 2, 9}" using target_alleles_success[OF a e] by auto
  with c have "G' = G @ (?c # codes) \<and> length (?c # codes) = length (i # is)
      \<and> (\<forall>c\<in>set (?c # codes). c \<in> {0, 1, 2, 9})"
    by simp
  then show ?case by blast
qed

lemma process_target_genotypes_success:
  assumes "process_target_genotypes nsmpl ngt gt G = Inr (G', nm)"
    and "int (length gt) = ngt" "\<forall>v\<in>set gt. encoded_call v"
  shows "\<exists>codes. G' = G @ codes \<and> length codes = nsmpl \<and> (\<forall>c\<in>set codes. c \<in> {0, 1, 2, 9})"
proof -
  from assms(1) have n: "ngt = 2 * int nsmpl" "nsmpl \<noteq> 0"
    by (auto simp: process_target_genotypes_def split: if_splits)
  then have p: "nat (ngt div int nsmpl) = 2" by simp
  have l: "length gt = 2 * nsmpl" using assms(2) n(1) by simp
  from assms(1) n have "target_samples 2 gt [0..<nsmpl] (G, 0) = Inr (G', nm)"
    by (simp add: process_target_genotypes_def p)
  from target_samples_success[OF l assms(3) this] show ?thesis by simp
qed

lemma vcf_accept_codes:
  assumes "vcf_accept ref tgt b st = Next st' \<or> vcf_accept ref tgt b st = Break st'"
    and "codes_inv st" and "encoded_line (r, Some tgt)"
  shows "codes_inv st' \<and> s_Ntarget st' = s_Ntarget st"
proof -
  from assms(1) obtain G nm' where
    t: "process_target_genotypes (s_Ntarget st) (ngenotypes tgt) (genotypes tgt) (s_genosTarget st)
          = Inr (G, nm')"
    and st': "s_genosTarget st' = G" "s_M st' = s_M st + 1" "s_Ntarget st' = s_Ntarget st"
    unfolding vcf_accept_def Let_def
    by (auto split: sum.splits prod.splits)
  from assms(3) have e: "int (length (genotypes tgt)) = ngenotypes tgt"
    "\<forall>v\<in>set (genotypes tgt). encoded_call v"
    by (simp_all add: encoded_line_def)
  from process_target_genotypes_success[OF t e] obtain codes where
    "G = s_genosTarget st @ codes" "length codes = s_Ntarget st" "\<forall>c\<in>set codes. c \<in> {0, 1, 2, 9}"
    by blast
  with assms(2) st' show ?thesis
    unfolding codes_inv_def by auto
qed

lemma vcf_reconcile_codes:
  "vcf_reconcile a ref tgt st = Inl st' \<Longrightarrow> codes_inv st \<Longrightarrow>
     codes_inv st' \<and> s_Ntarget st' = s_Ntarget st"
  "vcf_reconcile a ref tgt st = Inr (b, st') \<Longrightarrow> codes_inv st \<Longrightarrow>
     codes_inv st' \<and> s_Ntarget st' = s_Ntarget st"
  unfolding vcf_reconcile_def codes_inv_def by (fastforce split: if_splits)+

lemma vcf_chrom_gate_codes:
  assumes "vcf_chrom_gate sr tgt st = Next st' \<or> vcf_chrom_gate sr tgt st = Break st'"
    and "codes_inv st"
  shows "codes_inv st' \<and> s_Ntarget st' = s_Ntarget st"
  using assms unfolding vcf_chrom_gate_def Let_def codes_inv_def
  by (fastforce split: if_splits option.splits flow.splits)

lemma vcf_line_codes:
  assumes "vcf_line sr a st l = Next st' \<or> vcf_line sr a st l = Break st'"
    and "codes_inv st" and "encoded_line l"
  shows "codes_inv st' \<and> s_Ntarget st' = s_Ntarget st"
proof (cases "fst l")
  case None
  with assms show ?thesis by (fastforce simp: vcf_line_def codes_inv_def)
next
  case ref: (Some ref)
  show ?thesis
  proof (cases "snd l")
    case None
    with assms ref show ?thesis by (fastforce simp: vcf_line_def codes_inv_def)
  next
    case tgt: (Some tgt)
    then have el: "encoded_line (fst l, Some tgt)" using assms(3) by (simp add: encoded_line_def)
    show ?thesis
    proof (cases "n_allele tgt > 2 \<or> n_allele tgt < 2")
      case True
      with assms ref tgt show ?thesis
        by (fastforce simp: vcf_line_def codes_inv_def split: if_splits)
    next
      case False
      show ?thesis
      proof (cases "vcf_reconcile a ref tgt st")
        case (Inl st1)
        with assms ref tgt False have "st' = st1" by (auto simp: vcf_line_def)
        with vcf_reconcile_codes(1)[OF Inl assms(2)] show ?thesis by simp
      next
        case (Inr p)
        obtain b st1 where p: "p = (b, st1)" by (cases p)
        have i1: "codes_inv st1" "s_Ntarget st1 = s_Ntarget st"
          using vcf_reconcile_codes(2) Inr p assms(2) by blast+
        show ?thesis
        proof (cases "vcf_chrom_gate sr tgt st1")
          case (Next st2)
          then have i2: "codes_inv st2" "s_Ntarget st2 = s_Ntarget st1"
            using vcf_chrom_gate_codes[of sr tgt st1 st2] i1 by auto
          from assms ref tgt False Inr p Next
          have "vcf_accept ref tgt b st2 = Next st' \<or> vcf_accept ref tgt b st2 = Break st'"
            by (auto simp: vcf_line_def)
          from vcf_accept_codes[OF this i2(1) el] i1 i2 show ?thesis by simp
        next
          case (Break st2)
          then have i2: "codes_inv st2" "s_Ntarget st2 = s_Ntarget st1"
            using vcf_chrom_gate_codes[of sr tgt st1 st2] i1 by auto
          from assms ref tgt False Inr p Break have "st' = st2" by (auto simp: vcf_line_def)
          with i1 i2 show ?thesis by simp
        next
          case (Exit e)
          with assms ref tgt False Inr p show ?thesis by (auto simp: vcf_line_def)
        qed
      qed
    qed
  qed
qed

lemma vcf_loop_codes:
  "vcf_loop sr a st ls = Inr st' \<Longrightarrow> codes_inv st \<Longrightarrow> \<forall>l\<in>set ls. encoded_line l \<Longrightarrow>
     codes_inv st' \<and> s_Ntarget st' = s_Ntarget st"
proof (induction ls arbitrary: st)
  case Nil
  then show ?case by simp
next
  case (Cons l ls)
  have el: "encoded_line l" "\<forall>l\<in>set ls. encoded_line l" using Cons.prems(3) by simp_all
  show ?case
  proof (cases "vcf_line sr a st l")
    case (Next st1)
    with Cons.prems have "vcf_loop sr a st1 ls = Inr st'" by simp
    moreover have "codes_inv st1 \<and> s_Ntarget st1 = s_Ntarget st"
      using vcf_line_codes[of sr a st l st1] Next Cons.prems(2) el(1) by blast
    ultimately show ?thesis using Cons.IH el(2) by fastforce
  next
    case (Break st1)
    with Cons.prems have "st' = st1" by simp
    with vcf_line_codes[of sr a st l st1] Break Cons.prems(2) el(1) show ?thesis by blast
  next
    case (Exit e)
    with Cons.prems show ?thesis by simp
  qed
qed

lemma processVcfs_codes:
  assumes "processVcfs sr a chrom = Inr st" "\<forall>l\<in>set (sr_lines sr). encoded_line l"
  shows "length (s_genosTarget st) = s_M st * tgt_nsamples sr
     \<and> (\<forall>c\<in>set (s_genosTarget st). c \<in> {0, 1, 2, 9})"
proof -
  from assms(1) have l: "vcf_loop sr a (vcf_init sr chrom) (sr_lines sr) = Inr st"
    by (auto simp: processVcfs_def split: if_splits sum.splits)
  have "codes_inv (vcf_init sr chrom)" by (simp add: codes_inv_def vcf_init_def)
  from vcf_loop_codes[OF l this assms(2)] show ?thesis
    by (simp add: codes_inv_def vcf_init_def)
qed

text \<open>
  Claim C3. For a site whose target array holds two values per sample, none of them the
  vector-end sentinel and every allele index 0 or 1, \<^verbatim>\<open>process_target_genotypes\<close>
  succeeds and appends exactly one code per sample, in sample order. The code of a sample
  is 9 when either allele is missing, and the missing counter returned is the number of
  such samples; otherwise the code, read as a number, is the sum of the two allele
  indices. Every appended code is 0, 1, 2 or 9. Over a run on well-encoded lines that
  ends without a fatal error, the vector of codes has one entry per accepted variant and
  target sample, and every entry is 0, 1, 2 or 9.
\<close>

theorem target_codes:
  assumes "0 < nsmpl" and "ngt = 2 * int nsmpl" and "length gt = 2 * nsmpl"
    and "\<forall>v\<in>set gt. biallelic_call v"
  shows "(\<exists>codes. process_target_genotypes nsmpl ngt gt genosTarget =
            Inr (genosTarget @ codes, length (filter (sample_missing gt) [0..<nsmpl]))
         \<and> length codes = nsmpl
         \<and> (\<forall>i<nsmpl. codes ! i \<in> {0, 1, 2, 9} \<and>
              (if sample_missing gt i then codes ! i = 9
               else uint (codes ! i) =
                      bcf_gt_allele (gt ! (2 * i)) + bcf_gt_allele (gt ! Suc (2 * i)))))
     \<and> (\<forall>st. processVcfs sr allowRefAltSwap chrom = Inr st
               \<and> (\<forall>l\<in>set (sr_lines sr). encoded_line l) \<longrightarrow>
            length (s_genosTarget st) = s_M st * tgt_nsamples sr
            \<and> (\<forall>c\<in>set (s_genosTarget st). c \<in> {0, 1, 2, 9}))"
proof (intro conjI exI)
  show "process_target_genotypes nsmpl ngt gt genosTarget =
     Inr (genosTarget @ map (target_code gt) [0..<nsmpl],
          length (filter (sample_missing gt) [0..<nsmpl]))"
    by (rule process_target_genotypes_run[OF assms])
  show "length (map (target_code gt) [0..<nsmpl]) = nsmpl" by simp
  show "\<forall>i<nsmpl. map (target_code gt) [0..<nsmpl] ! i \<in> {0, 1, 2, 9} \<and>
      (if sample_missing gt i then map (target_code gt) [0..<nsmpl] ! i = 9
       else uint (map (target_code gt) [0..<nsmpl] ! i) =
              bcf_gt_allele (gt ! (2 * i)) + bcf_gt_allele (gt ! Suc (2 * i)))"
    using target_code_value[OF assms(3,4)] by simp
  show "\<forall>st. processVcfs sr allowRefAltSwap chrom = Inr st
               \<and> (\<forall>l\<in>set (sr_lines sr). encoded_line l) \<longrightarrow>
            length (s_genosTarget st) = s_M st * tgt_nsamples sr
            \<and> (\<forall>c\<in>set (s_genosTarget st). c \<in> {0, 1, 2, 9})"
    using processVcfs_codes by blast
qed

theorem target_codes_witness:
  "\<exists>codes. process_target_genotypes 3 6 [2, 5, 0, 4, 4, 5] [] = Inr (codes, 1)
      \<and> length codes = 3 \<and> uint (codes ! 0) = 1 \<and> codes ! 1 = 9 \<and> uint (codes ! 2) = 2"
proof -
  let ?gt = "[2, 5, 0, 4, 4, 5] :: int32_t list"
  have h1: "0 < (3::nat)" by simp
  have h2: "(6::int) = 2 * int 3" by simp
  have h3: "length ?gt = 2 * 3" by simp
  have h4: "\<forall>v\<in>set ?gt. biallelic_call v"
    by (simp add: biallelic_call_def bcf_int32_vector_end_def bcf_gt_is_missing_def
        bcf_gt_allele_def)
  have m: "\<not> sample_missing ?gt 0" "sample_missing ?gt 1" "\<not> sample_missing ?gt 2"
    by (simp_all add: sample_missing_def bcf_gt_is_missing_def)
  have c: "length (filter (sample_missing ?gt) [0..<3]) = 1"
    by code_simp
  from target_codes[OF h1 h2 h3 h4, of "[]"] obtain codes where
    r: "process_target_genotypes 3 6 ?gt [] =
          Inr ([] @ codes, length (filter (sample_missing ?gt) [0..<3]))"
    and l: "length codes = 3"
    and v: "\<forall>i<3. codes ! i \<in> {0, 1, 2, 9} \<and>
            (if sample_missing ?gt i then codes ! i = 9
             else uint (codes ! i) =
                    bcf_gt_allele (?gt ! (2 * i)) + bcf_gt_allele (?gt ! Suc (2 * i)))"
    by blast
  from v have "uint (codes ! 0) = 1" "codes ! 1 = 9" "uint (codes ! 2) = 2"
    using m by (simp_all add: bcf_gt_allele_def)
  with r l c show ?thesis by simp
qed

subsection \<open>The generator and the reference haplotypes\<close>






lemma ref_run_plain:
  assumes "i < nsmpl" "\<not> sample_missing gt i" "\<not> sample_het_unphased gt i"
  shows "[ref_run refAltSwap gt [0..<nsmpl] w ! (2 * i), ref_run refAltSwap gt [0..<nsmpl] w ! Suc (2 * i)] =
     [hap gt (2 * i) \<noteq> refAltSwap, hap gt (Suc (2 * i)) \<noteq> refAltSwap]"
  unfolding ref_run_pair[OF assms(1)] using assms(2,3) by (simp add: ref_call_def)













text \<open>
  Claim C6, as amended. For a site of diploid reference samples the unphased counter
  returned is the number of samples that are not missing and whose second allele is not
  marked phased, whether or not their two alleles differ. A homozygous unphased sample
  keeps its two booleans in order, and a site without a heterozygous unphased sample
  leaves the generator state as it was; in general the generator has advanced by as many
  steps as the site has heterozygous unphased samples.
\<close>

theorem unphased_counter:
  assumes "0 < nsmpl" and "ngt = 2 * int nsmpl" and "length gt = 2 * nsmpl"
    and "\<forall>v\<in>set gt. v \<noteq> bcf_int32_vector_end"
  shows "\<exists>bits nm w'.
          process_ref_genotypes nsmpl ngt gt refAltSwap H w =
            Inr (H @ bits, nm, length (filter (sample_unphased gt) [0..<nsmpl]), w')
        \<and> (\<forall>i<nsmpl. sample_unphased gt i \<and> hap gt (2 * i) = hap gt (Suc (2 * i)) \<longrightarrow>
              [bits ! (2 * i), bits ! Suc (2 * i)] =
                [hap gt (2 * i) \<noteq> refAltSwap, hap gt (Suc (2 * i)) \<noteq> refAltSwap])
        \<and> ((\<forall>i<nsmpl. \<not> sample_het_unphased gt i) \<longrightarrow> w' = w)
        \<and> w' = (mwc ^^ length (filter (sample_het_unphased gt) [0..<nsmpl])) w"
proof (intro exI conjI)
  show "process_ref_genotypes nsmpl ngt gt refAltSwap H w =
     Inr (H @ ref_run refAltSwap gt [0..<nsmpl] w,
          length (filter (sample_missing gt) [0..<nsmpl]),
          length (filter (sample_unphased gt) [0..<nsmpl]),
          (mwc ^^ length (filter (sample_het_unphased gt) [0..<nsmpl])) w)"
    by (rule process_ref_genotypes_run[OF assms])
  show "\<forall>i<nsmpl. sample_unphased gt i \<and> hap gt (2 * i) = hap gt (Suc (2 * i)) \<longrightarrow>
      [ref_run refAltSwap gt [0..<nsmpl] w ! (2 * i),
       ref_run refAltSwap gt [0..<nsmpl] w ! Suc (2 * i)] =
      [hap gt (2 * i) \<noteq> refAltSwap, hap gt (Suc (2 * i)) \<noteq> refAltSwap]"
  proof (intro allI impI)
    fix i assume i: "i < nsmpl"
      and u: "sample_unphased gt i \<and> hap gt (2 * i) = hap gt (Suc (2 * i))"
    then have "\<not> sample_missing gt i" "\<not> sample_het_unphased gt i"
      by (simp_all add: sample_unphased_def sample_het_unphased_def)
    from ref_run_plain[OF i this]
    show "[ref_run refAltSwap gt [0..<nsmpl] w ! (2 * i),
       ref_run refAltSwap gt [0..<nsmpl] w ! Suc (2 * i)] =
      [hap gt (2 * i) \<noteq> refAltSwap, hap gt (Suc (2 * i)) \<noteq> refAltSwap]" .
  qed
  show "(\<forall>i<nsmpl. \<not> sample_het_unphased gt i) \<longrightarrow>
      (mwc ^^ length (filter (sample_het_unphased gt) [0..<nsmpl])) w = w"
  proof
    assume "\<forall>i<nsmpl. \<not> sample_het_unphased gt i"
    then have "filter (sample_het_unphased gt) [0..<nsmpl] = []"
      by (simp add: filter_empty_conv)
    then show "(mwc ^^ length (filter (sample_het_unphased gt) [0..<nsmpl])) w = w" by simp
  qed
  show "(mwc ^^ length (filter (sample_het_unphased gt) [0..<nsmpl])) w =
      (mwc ^^ length (filter (sample_het_unphased gt) [0..<nsmpl])) w" by (rule refl)
qed

theorem unphased_counter_witness:
  "\<exists>bits nm. process_ref_genotypes 2 4 [2, 2, 5, 5] False [] 521288629 =
       Inr (bits, nm, 1, 521288629) \<and> [bits ! 0, bits ! 1] = [False, False]"
proof -
  let ?gt = "[2, 2, 5, 5] :: int32_t list"
  have h1: "0 < (2::nat)" by simp
  have h2: "(4::int) = 2 * int 2" by simp
  have h3: "length ?gt = 2 * 2" by simp
  have h4: "\<forall>v\<in>set ?gt. v \<noteq> bcf_int32_vector_end"
    by (simp add: bcf_int32_vector_end_def)
  have s: "sample_unphased ?gt 0 \<and> hap ?gt (2 * 0) = hap ?gt (Suc (2 * 0))" by code_simp
  have n: "\<not> sample_het_unphased ?gt 0" "\<not> sample_het_unphased ?gt 1" by code_simp+
  have c: "length (filter (sample_unphased ?gt) [0..<2]) = 1" by code_simp
  have hp: "\<not> hap ?gt 0" "\<not> hap ?gt 1" by code_simp+
  from unphased_counter[OF h1 h2 h3 h4, of False "[]" 521288629]
  obtain bits nm w' where
    r: "process_ref_genotypes 2 4 ?gt False [] 521288629 =
            Inr ([] @ bits, nm, length (filter (sample_unphased ?gt) [0..<2]), w')"
    and v: "\<forall>i<2. sample_unphased ?gt i \<and> hap ?gt (2 * i) = hap ?gt (Suc (2 * i)) \<longrightarrow>
              [bits ! (2 * i), bits ! Suc (2 * i)] =
                [hap ?gt (2 * i) \<noteq> False, hap ?gt (Suc (2 * i)) \<noteq> False]"
    and k: "(\<forall>i<2. \<not> sample_het_unphased ?gt i) \<longrightarrow> w' = 521288629"
    by blast
  have "\<forall>i<2. \<not> sample_het_unphased ?gt i"
    using n by (auto simp: less_Suc_eq numeral_2_eq_2)
  with k have w: "w' = 521288629" by blast
  have "[bits ! (2 * 0), bits ! Suc (2 * 0)] =
                [hap ?gt (2 * 0) \<noteq> False, hap ?gt (Suc (2 * 0)) \<noteq> False]"
    by (rule v[rule_format, OF _ s]) simp
  with hp have b0: "[bits ! 0, bits ! 1] = [False, False]" by simp
  from r w b0 show ?thesis unfolding c by auto
qed

text \<open>
  The claim as first stated fails on a homozygous unphased call: for the single sample
  \<^verbatim>\<open>0/0\<close> (both values 2) the unphased counter returned is 1.
\<close>

theorem unphased_counter_counterexample:
  "\<not> bcf_gt_is_missing 2 \<and> \<not> bcf_gt_is_phased 2 \<and> bcf_gt_allele 2 = 0
   \<and> process_ref_genotypes 1 2 [2, 2] False [] 521288629 =
       Inr ([False, False], 0, 1, 521288629)"
  by (simp add: bcf_gt_is_missing_def bcf_gt_is_phased_def bcf_gt_allele_def
      process_ref_genotypes_def bcf_int32_vector_end_def ref_policy_def)



section \<open>Properties of the synchronised read\<close>

subsection \<open>Invariant of the loop and the two ranges\<close>

lemma run_inv_init: "run_inv (vcf_init sr chrom)"
  by (simp add: run_inv_def vcf_init_def)

lemma vcf_reconcile_inv:
  "vcf_reconcile a ref tgt st = Inl st' \<Longrightarrow> run_inv st \<Longrightarrow> run_inv st'"
  "vcf_reconcile a ref tgt st = Inr (b, st') \<Longrightarrow> run_inv st \<Longrightarrow> run_inv st'"
  unfolding vcf_reconcile_def run_inv_def by (fastforce split: if_splits)+

lemma vcf_chrom_gate_inv:
  assumes "vcf_chrom_gate sr tgt st = Next st' \<or> vcf_chrom_gate sr tgt st = Break st'"
    and "run_inv st"
  shows "run_inv st' \<and> (vcf_chrom_gate sr tgt st = Next st' \<longrightarrow> s_chrom st' \<noteq> 0)"
  using assms unfolding vcf_chrom_gate_def Let_def run_inv_def
  by (fastforce split: if_splits option.splits flow.splits)

lemma vcf_accept_inv:
  assumes "vcf_accept ref tgt b st = Next st' \<or> vcf_accept ref tgt b st = Break st'"
    and "run_inv st" and "s_chrom st \<noteq> 0"
  shows "run_inv st'"
  using assms unfolding vcf_accept_def Let_def run_inv_def
  by (fastforce split: sum.splits prod.splits)

lemma vcf_line_inv:
  assumes "vcf_line sr a st l = Next st' \<or> vcf_line sr a st l = Break st'"
    and "run_inv st"
  shows "run_inv st'"
proof (cases "fst l")
  case None
  with assms show ?thesis by (fastforce simp: vcf_line_def run_inv_def)
next
  case ref: (Some ref)
  show ?thesis
  proof (cases "snd l")
    case None
    with assms ref show ?thesis by (fastforce simp: vcf_line_def run_inv_def)
  next
    case tgt: (Some tgt)
    show ?thesis
    proof (cases "n_allele tgt > 2 \<or> n_allele tgt < 2")
      case True
      with assms ref tgt show ?thesis
        by (fastforce simp: vcf_line_def run_inv_def split: if_splits)
    next
      case False
      show ?thesis
      proof (cases "vcf_reconcile a ref tgt st")
        case (Inl st1)
        with assms ref tgt False have "st' = st1" by (auto simp: vcf_line_def)
        with vcf_reconcile_inv(1)[OF Inl assms(2)] show ?thesis by simp
      next
        case (Inr p)
        obtain b st1 where p: "p = (b, st1)" by (cases p)
        have i1: "run_inv st1" using vcf_reconcile_inv(2) Inr p assms(2) by blast
        show ?thesis
        proof (cases "vcf_chrom_gate sr tgt st1")
          case (Next st2)
          then have i2: "run_inv st2" "s_chrom st2 \<noteq> 0"
            using vcf_chrom_gate_inv[of sr tgt st1 st2] i1 by auto
          from assms ref tgt False Inr p Next
          have "vcf_accept ref tgt b st2 = Next st' \<or> vcf_accept ref tgt b st2 = Break st'"
            by (auto simp: vcf_line_def)
          from vcf_accept_inv[OF this i2] show ?thesis .
        next
          case (Break st2)
          then have i2: "run_inv st2"
            using vcf_chrom_gate_inv[of sr tgt st1 st2] i1 by auto
          from assms ref tgt False Inr p Break have "st' = st2" by (auto simp: vcf_line_def)
          with i2 show ?thesis by simp
        next
          case (Exit e)
          with assms ref tgt False Inr p show ?thesis by (auto simp: vcf_line_def)
        qed
      qed
    qed
  qed
qed

lemma vcf_loop_inv:
  "vcf_loop sr a st ls = Inr st' \<Longrightarrow> run_inv st \<Longrightarrow> run_inv st'"
proof (induction ls arbitrary: st)
  case Nil
  then show ?case by simp
next
  case (Cons l ls)
  show ?case
  proof (cases "vcf_line sr a st l")
    case (Next st1)
    with Cons.prems have "vcf_loop sr a st1 ls = Inr st'" by simp
    moreover have "run_inv st1" using vcf_line_inv[of sr a st l st1] Next Cons.prems(2) by blast
    ultimately show ?thesis using Cons.IH by blast
  next
    case (Break st1)
    with Cons.prems have "st' = st1" by simp
    with vcf_line_inv[of sr a st l st1] Break Cons.prems(2) show ?thesis by blast
  next
    case (Exit e)
    with Cons.prems show ?thesis by simp
  qed
qed

text \<open>
  The physical range is exact: the differences of positions add up, modulo \<open>2^64\<close>, to
  the difference of the last and the first position.
\<close>

lemma range_fold_phys:
  assumes "\<forall>p\<in>set chrBps. fst p = c" "k < length chrBps"
  shows "fst (fold (range_step chrBps cMs) [0..<k] (0, 0)) =
     word_of_int (snd (chrBps ! k) - snd (chrBps ! 0))"
  using assms(2)
proof (induction k)
  case 0
  then show ?case by simp
next
  case (Suc k)
  then have k: "k < length chrBps" "Suc k < length chrBps" by simp_all
  have f: "fst (chrBps ! (k + 1)) = fst (chrBps ! k)"
    using assms(1) k nth_mem by (metis Suc_eq_plus1)
  obtain a b where s: "fold (range_step chrBps cMs) [0..<k] (0, 0) = (a, b)"
    by (cases "fold (range_step chrBps cMs) [0..<k] (0, 0)")
  with Suc.IH[OF k(1)] have a: "a = word_of_int (snd (chrBps ! k) - snd (chrBps ! 0))"
    by simp
  have "fold (range_step chrBps cMs) [0..<Suc k] (0, 0) = range_step chrBps cMs k (a, b)"
    by (simp add: s)
  also have "fst \<dots> = word_of_int (snd (chrBps ! Suc k) - snd (chrBps ! 0))"
    using f by (simp add: a range_step_def)
  finally show ?case .
qed

text \<open>
  The genetic range needs two facts of the arithmetic only, both true of the machine's
  finite numbers: a number minus itself is zero, and zero plus zero is zero. With them,
  equal coordinates give the range zero.
\<close>

lemma range_fold_cM:
  fixes cMs :: "'c::{zero,plus,minus} list"
  assumes "(0::'c) + 0 = 0" "cMs ! 0 - cMs ! 0 = 0"
    and "\<forall>i<length cMs. cMs ! i = cMs ! 0" "k < length cMs"
  shows "snd (fold (range_step chrBps cMs) [0..<k] (0, 0)) = 0"
  using assms(4)
proof (induction k)
  case 0
  then show ?case by simp
next
  case (Suc k)
  then have k: "k < length cMs" "Suc k < length cMs" by simp_all
  have e: "cMs ! (k + 1) = cMs ! 0" "cMs ! k = cMs ! 0"
    using assms(3) k by simp_all
  obtain a b where s: "fold (range_step chrBps cMs) [0..<k] (0, 0) = (a, b)"
    by (cases "fold (range_step chrBps cMs) [0..<k] (0, 0)")
  with Suc.IH[OF k(1)] have b: "b = 0" by simp
  have "fold (range_step chrBps cMs) [0..<Suc k] (0, 0) = range_step chrBps cMs k (a, b)"
    by (simp add: s)
  also have "snd \<dots> = 0"
    unfolding range_step_def b e by (simp add: assms(1,2))
  finally show ?case .
qed

lemma sorted_ends_equal:
  fixes xs :: "'c::linorder list"
  assumes "sorted xs" "xs \<noteq> []" "last xs = hd xs" "i < length xs"
  shows "xs ! i = xs ! 0"
proof -
  have n: "length xs - 1 < length xs" using assms(2) by simp
  have "xs ! 0 \<le> xs ! i"
    using assms(1,4) by (simp add: sorted_iff_nth_mono)
  moreover have "xs ! i \<le> xs ! (length xs - 1)"
    using assms(1,4) n by (intro sorted_nth_mono) auto
  moreover have "xs ! (length xs - 1) = xs ! 0"
    using assms(2,3) by (simp add: last_conv_nth hd_conv_nth)
  ultimately show ?thesis by simp
qed

lemma length_processMap: "length (processMap hundred interp chrBps) = length chrBps"
  by (simp add: processMap_def)

text \<open>Unfolding sets for evaluating the model on concrete records.\<close>

lemmas enc_eval = process_ref_genotypes_def process_target_genotypes_def ref_policy_def
  bcf_int32_vector_end_def bcf_gt_is_missing_def bcf_gt_allele_def bcf_gt_is_phased_def

lemmas run_eval = vcf_line_def vcf_reconcile_def vcf_chrom_gate_def vcf_accept_def vcf_init_def
  Let_def

subsection \<open>Allele-swap reconciliation\<close>

text \<open>
  Claim C7. With allele-swap reconciliation enabled, the reconciliation block treats a
  joined record as follows. If either side does not have exactly 2 alleles, the
  reconciliation-error counter is incremented and the record is skipped. Otherwise, if
  both allele strings match, the record proceeds with \<^verbatim>\<open>refAltSwap\<close> false; otherwise,
  if they match in reverse, the swap counter is incremented and the record proceeds with
  \<^verbatim>\<open>refAltSwap\<close> true; otherwise the reconciliation-error counter is incremented and
  the record is skipped. In the loop, for a record that reaches the block, skipping is
  the end of the pass with nothing but that counter changed, and proceeding is the
  chromosome check followed by the encoding with the \<^verbatim>\<open>refAltSwap\<close> that the block set.
\<close>

theorem reconciliation:
  "(n_allele tgt \<noteq> 2 \<or> n_allele ref \<noteq> 2 \<longrightarrow>
      vcf_reconcile True ref tgt st = Inl (st\<lparr>s_MrefAltError := s_MrefAltError st + 1\<rparr>))
   \<and> (n_allele tgt = 2 \<and> n_allele ref = 2 \<longrightarrow>
      vcf_reconcile True ref tgt st =
        (if allele tgt ! 0 = allele ref ! 0 \<and> allele tgt ! 1 = allele ref ! 1
         then Inr (False, st)
         else if allele tgt ! 0 = allele ref ! 1 \<and> allele tgt ! 1 = allele ref ! 0
         then Inr (True, st\<lparr>s_numRefAltSwaps := s_numRefAltSwaps st + 1\<rparr>)
         else Inl (st\<lparr>s_MrefAltError := s_MrefAltError st + 1\<rparr>)))
   \<and> (n_allele tgt = 2 \<longrightarrow>
      vcf_line sr True st (Some ref, Some tgt) =
        (case vcf_reconcile True ref tgt st of
           Inl st1 \<Rightarrow> Next st1
         | Inr (refAltSwap, st1) \<Rightarrow>
             (case vcf_chrom_gate sr tgt st1 of
                Next st2 \<Rightarrow> vcf_accept ref tgt refAltSwap st2
              | other \<Rightarrow> other)))
   \<and> (n_allele tgt = 2 \<longrightarrow>
      vcf_line sr True st (Some ref, Some tgt) =
        (if n_allele ref \<noteq> 2 then Next (st\<lparr>s_MrefAltError := s_MrefAltError st + 1\<rparr>)
         else if allele tgt ! 0 = allele ref ! 0 \<and> allele tgt ! 1 = allele ref ! 1
         then (case vcf_chrom_gate sr tgt st of
                 Next st2 \<Rightarrow> vcf_accept ref tgt False st2
               | other \<Rightarrow> other)
         else if allele tgt ! 0 = allele ref ! 1 \<and> allele tgt ! 1 = allele ref ! 0
         then (case vcf_chrom_gate sr tgt (st\<lparr>s_numRefAltSwaps := s_numRefAltSwaps st + 1\<rparr>) of
                 Next st2 \<Rightarrow> vcf_accept ref tgt True st2
               | other \<Rightarrow> other)
         else Next (st\<lparr>s_MrefAltError := s_MrefAltError st + 1\<rparr>)))"
proof (intro conjI impI)
  assume "n_allele tgt \<noteq> 2 \<or> n_allele ref \<noteq> 2"
  then show "vcf_reconcile True ref tgt st =
      Inl (st\<lparr>s_MrefAltError := s_MrefAltError st + 1\<rparr>)"
    by (auto simp: vcf_reconcile_def)
next
  assume "n_allele tgt = 2 \<and> n_allele ref = 2"
  then show "vcf_reconcile True ref tgt st =
        (if allele tgt ! 0 = allele ref ! 0 \<and> allele tgt ! 1 = allele ref ! 1
         then Inr (False, st)
         else if allele tgt ! 0 = allele ref ! 1 \<and> allele tgt ! 1 = allele ref ! 0
         then Inr (True, st\<lparr>s_numRefAltSwaps := s_numRefAltSwaps st + 1\<rparr>)
         else Inl (st\<lparr>s_MrefAltError := s_MrefAltError st + 1\<rparr>))"
    by (simp add: vcf_reconcile_def)
next
  assume "n_allele tgt = 2"
  then show "vcf_line sr True st (Some ref, Some tgt) =
        (case vcf_reconcile True ref tgt st of
           Inl st1 \<Rightarrow> Next st1
         | Inr (refAltSwap, st1) \<Rightarrow>
             (case vcf_chrom_gate sr tgt st1 of
                Next st2 \<Rightarrow> vcf_accept ref tgt refAltSwap st2
              | other \<Rightarrow> other))"
    by (simp add: vcf_line_def)
next
  assume "n_allele tgt = 2"
  then show "vcf_line sr True st (Some ref, Some tgt) =
        (if n_allele ref \<noteq> 2 then Next (st\<lparr>s_MrefAltError := s_MrefAltError st + 1\<rparr>)
         else if allele tgt ! 0 = allele ref ! 0 \<and> allele tgt ! 1 = allele ref ! 1
         then (case vcf_chrom_gate sr tgt st of
                 Next st2 \<Rightarrow> vcf_accept ref tgt False st2
               | other \<Rightarrow> other)
         else if allele tgt ! 0 = allele ref ! 1 \<and> allele tgt ! 1 = allele ref ! 0
         then (case vcf_chrom_gate sr tgt (st\<lparr>s_numRefAltSwaps := s_numRefAltSwaps st + 1\<rparr>) of
                 Next st2 \<Rightarrow> vcf_accept ref tgt True st2
               | other \<Rightarrow> other)
         else Next (st\<lparr>s_MrefAltError := s_MrefAltError st + 1\<rparr>))"
    by (auto simp: vcf_line_def vcf_reconcile_def)
qed

theorem reconciliation_witness:
  "(let tgt = \<lparr>rid = 0, pos = 99, n_allele = 2, allele = [''C'', ''A''],
                ngenotypes = 2, genotypes = [2, 4]\<rparr>;
        ref = \<lparr>rid = 0, pos = 99, n_allele = 2, allele = [''A'', ''C''],
                ngenotypes = 2, genotypes = [2, 5]\<rparr>;
        ref3 = \<lparr>rid = 0, pos = 99, n_allele = 3, allele = [''A'', ''C'', ''G''],
                ngenotypes = 2, genotypes = [2, 5]\<rparr>;
        sr = \<lparr>set_regions_ok = True, add_ref_ok = True, add_tgt_ok = True,
               ref_nsamples = 1, tgt_nsamples = 1, contig_number = (\<lambda>r. Some 20),
               sr_lines = [(Some ref, Some tgt)]\<rparr>
    in (\<exists>st'. vcf_line sr True (vcf_init sr 0) (Some ref, Some tgt) = Next st'
         \<and> s_numRefAltSwaps st' = 1 \<and> s_MrefAltError st' = 0 \<and> s_M st' = 1
         \<and> s_hapsRef st' = [True, False] \<and> s_genosTarget st' = [1])
       \<and> vcf_reconcile True ref3 tgt (vcf_init sr 0) =
           Inl ((vcf_init sr 0)\<lparr>s_MrefAltError := 1\<rparr>)
       \<and> vcf_line sr True (vcf_init sr 0) (Some ref3, Some tgt) =
           Next ((vcf_init sr 0)\<lparr>s_MrefAltError := 1\<rparr>))"
proof -
  let ?tgt = "\<lparr>rid = 0, pos = 99, n_allele = 2, allele = [''C'', ''A''],
                ngenotypes = 2, genotypes = [2, 4]\<rparr>"
  let ?ref = "\<lparr>rid = 0, pos = 99, n_allele = 2, allele = [''A'', ''C''],
                ngenotypes = 2, genotypes = [2, 5]\<rparr>"
  let ?ref3 = "\<lparr>rid = 0, pos = 99, n_allele = 3, allele = [''A'', ''C'', ''G''],
                ngenotypes = 2, genotypes = [2, 5]\<rparr>"
  let ?sr = "\<lparr>set_regions_ok = True, add_ref_ok = True, add_tgt_ok = True,
               ref_nsamples = 1, tgt_nsamples = 1, contig_number = (\<lambda>r. Some 20),
               sr_lines = [(Some ?ref, Some ?tgt)]\<rparr>"
  let ?st = "vcf_init ?sr 0"
  have n: "n_allele ?tgt = 2" by simp
  have n3: "n_allele ?tgt \<noteq> 2 \<or> n_allele ?ref3 \<noteq> 2" by simp
  have e: "s_MrefAltError ?st + 1 = 1" "s_numRefAltSwaps ?st + 1 = 1"
    by (simp_all add: vcf_init_def)
  note a = reconciliation[where tgt = ?tgt and ref = ?ref and sr = ?sr and st = ?st]
  note b = reconciliation[where tgt = ?tgt and ref = ?ref3 and sr = ?sr and st = ?st]
  from a n
  have "vcf_line ?sr True ?st (Some ?ref, Some ?tgt) =
        (case vcf_chrom_gate ?sr ?tgt (?st\<lparr>s_numRefAltSwaps := s_numRefAltSwaps ?st + 1\<rparr>) of
           Next st2 \<Rightarrow> vcf_accept ?ref ?tgt True st2
         | other \<Rightarrow> other)"
    by simp
  then have 1: "\<exists>st'. vcf_line ?sr True ?st (Some ?ref, Some ?tgt) = Next st'
         \<and> s_numRefAltSwaps st' = 1 \<and> s_MrefAltError st' = 0 \<and> s_M st' = 1
         \<and> s_hapsRef st' = [True, False] \<and> s_genosTarget st' = [1]"
    by (simp add: vcf_chrom_gate_def vcf_accept_def vcf_init_def Let_def enc_eval)
  from b n3 have 2: "vcf_reconcile True ?ref3 ?tgt ?st = Inl (?st\<lparr>s_MrefAltError := 1\<rparr>)"
    unfolding e by blast
  from b n have "vcf_line ?sr True ?st (Some ?ref3, Some ?tgt) =
        (case vcf_reconcile True ?ref3 ?tgt ?st of
           Inl st1 \<Rightarrow> Next st1
         | Inr (refAltSwap, st1) \<Rightarrow>
             (case vcf_chrom_gate ?sr ?tgt st1 of
                Next st2 \<Rightarrow> vcf_accept ?ref3 ?tgt refAltSwap st2
              | other \<Rightarrow> other))"
    by blast
  then have 3: "vcf_line ?sr True ?st (Some ?ref3, Some ?tgt) = Next (?st\<lparr>s_MrefAltError := 1\<rparr>)"
    unfolding 2 by simp
  from 1 2 3 show ?thesis unfolding Let_def by blast
qed

subsection \<open>Degenerate input\<close>

text \<open>
  Claim C9. When the loop over the joined lines has ended, \<^verbatim>\<open>M\<close> is the number of
  accepted variants. If fewer than 2 were accepted, or the last and first accepted
  positions coincide, or the genetic coordinates, non-decreasing along the list as the
  genetic map is taken to deliver them, have their last and first value coincide, or the
  sum of the differences of neighbouring coordinates, as the constructor accumulates it,
  is zero, the constructor ends in a fatal error and returns no packed data. Of the
  arithmetic of the coordinates the statement uses only that zero plus zero is zero and
  that a coordinate minus itself is zero.
\<close>

theorem degenerate_input_fatal:
  fixes interp :: "int \<Rightarrow> int \<Rightarrow> 'c::{linorder,zero,plus,minus,times}"
  assumes "vcf_loop sr allowRefAltSwap (vcf_init sr chrom) (sr_lines sr) = Inr st"
    and "(0::'c) + 0 = 0"
    and "\<forall>x\<in>set (processMap hundred interp (s_chrBps st)). x - x = 0"
    and "length (s_chrBps st) < 2
         \<or> snd (last (s_chrBps st)) - snd (hd (s_chrBps st)) = 0
         \<or> (sorted (processMap hundred interp (s_chrBps st))
            \<and> last (processMap hundred interp (s_chrBps st)) =
                hd (processMap hundred interp (s_chrBps st)))
         \<or> snd (ranges (s_chrBps st) (processMap hundred interp (s_chrBps st))) = 0"
  shows "s_M st = length (s_chrBps st)
     \<and> (\<exists>e. SyncedVcfData sr allowRefAltSwap chrom hundred interp cMmax = Inl e)"
proof -
  let ?cMs = "processMap hundred interp (s_chrBps st)"
  have inv: "run_inv st" using vcf_loop_inv[OF assms(1) run_inv_init] .
  then have m: "s_M st = length (s_chrBps st)"
    and c: "\<forall>p\<in>set (s_chrBps st). fst p = s_chrom st"
    by (simp_all add: run_inv_def)
  have "\<exists>e. SyncedVcfData sr allowRefAltSwap chrom hundred interp cMmax = Inl e"
  proof (cases "processVcfs sr allowRefAltSwap chrom")
    case (Inl e)
    then show ?thesis by (simp add: SyncedVcfData_def)
  next
    case (Inr st')
    with assms(1) have st': "st' = st" and big: "\<not> s_M st \<le> 1"
      by (auto simp: processVcfs_def split: if_splits)
    from big m have ne: "s_chrBps st \<noteq> []" and l2: "\<not> length (s_chrBps st) < 2" by auto
    have k: "length (s_chrBps st) - 1 < length (s_chrBps st)" using ne by simp
    have lc: "length ?cMs = length (s_chrBps st)" by (rule length_processMap)
    have cne: "?cMs \<noteq> []" using ne lc by auto
    obtain physRange cMrange where r: "ranges (s_chrBps st) ?cMs = (physRange, cMrange)"
      by (cases "ranges (s_chrBps st) ?cMs")
    have p: "physRange = word_of_int (snd (last (s_chrBps st)) - snd (hd (s_chrBps st)))"
      using range_fold_phys[OF c k, of ?cMs] r ne
      by (simp add: ranges_def last_conv_nth hd_conv_nth)
    from assms(4) l2 have "physRange = 0 \<or> cMrange = 0"
    proof (elim disjE)
      assume "length (s_chrBps st) < 2"
      with l2 show ?thesis by simp
    next
      assume "snd (last (s_chrBps st)) - snd (hd (s_chrBps st)) = 0"
      with p show ?thesis by simp
    next
      assume s: "sorted ?cMs \<and> last ?cMs = hd ?cMs"
      have eq: "\<forall>i<length ?cMs. ?cMs ! i = ?cMs ! 0"
        using sorted_ends_equal[of ?cMs] s cne by blast
      have "?cMs ! 0 \<in> set ?cMs" using cne by simp
      then have z: "?cMs ! 0 - ?cMs ! 0 = 0" using assms(3) by blast
      have kc: "length (s_chrBps st) - 1 < length ?cMs" using k lc by simp
      have "cMrange = 0"
        using range_fold_cM[OF assms(2) z eq kc, of "s_chrBps st"] r
        by (simp add: ranges_def)
      then show ?thesis by simp
    next
      assume "snd (ranges (s_chrBps st) ?cMs) = 0"
      with r show ?thesis by simp
    qed
    then have "SyncedVcfData sr allowRefAltSwap chrom hundred interp cMmax = Inl ZeroRange"
      unfolding SyncedVcfData_def Inr st' by (auto simp: r Let_def)
    then show ?thesis by blast
  qed
  with m show ?thesis by blast
qed

theorem degenerate_input_fatal_witness:
  "(let t1 = \<lparr>rid = 0, pos = 99, n_allele = 2, allele = [''A'', ''C''],
               ngenotypes = 2, genotypes = [2, 4]\<rparr>;
        r1 = \<lparr>rid = 0, pos = 99, n_allele = 2, allele = [''A'', ''C''],
               ngenotypes = 2, genotypes = [2, 5]\<rparr>;
        t2 = \<lparr>rid = 0, pos = 199, n_allele = 2, allele = [''G'', ''T''],
               ngenotypes = 2, genotypes = [4, 4]\<rparr>;
        r2 = \<lparr>rid = 0, pos = 199, n_allele = 2, allele = [''G'', ''T''],
               ngenotypes = 2, genotypes = [3, 3]\<rparr>;
        sr = \<lparr>set_regions_ok = True, add_ref_ok = True, add_tgt_ok = True,
               ref_nsamples = 1, tgt_nsamples = 1, contig_number = (\<lambda>r. Some 20),
               sr_lines = [(Some r1, Some t1), (Some r2, Some t2)]\<rparr>
    in \<exists>e. SyncedVcfData sr False 0 (100 :: real) (\<lambda>c bp. 3 / 2) 1 = Inl e)"
proof -
  let ?t1 = "\<lparr>rid = 0, pos = 99, n_allele = 2, allele = [''A'', ''C''],
               ngenotypes = 2, genotypes = [2, 4]\<rparr>"
  let ?r1 = "\<lparr>rid = 0, pos = 99, n_allele = 2, allele = [''A'', ''C''],
               ngenotypes = 2, genotypes = [2, 5]\<rparr>"
  let ?t2 = "\<lparr>rid = 0, pos = 199, n_allele = 2, allele = [''G'', ''T''],
               ngenotypes = 2, genotypes = [4, 4]\<rparr>"
  let ?r2 = "\<lparr>rid = 0, pos = 199, n_allele = 2, allele = [''G'', ''T''],
               ngenotypes = 2, genotypes = [3, 3]\<rparr>"
  let ?sr = "\<lparr>set_regions_ok = True, add_ref_ok = True, add_tgt_ok = True,
               ref_nsamples = 1, tgt_nsamples = 1, contig_number = (\<lambda>r. Some 20),
               sr_lines = [(Some ?r1, Some ?t1), (Some ?r2, Some ?t2)]\<rparr>"
  let ?interp = "\<lambda>(c::int) (bp::int). (3 / 2 :: real)"
  have "\<exists>st. vcf_loop ?sr False (vcf_init ?sr 0) (sr_lines ?sr) = Inr st
          \<and> s_chrBps st = [(20, 100), (20, 200)]"
    by (simp add: run_eval enc_eval)
  then obtain st where
    l: "vcf_loop ?sr False (vcf_init ?sr 0) (sr_lines ?sr) = Inr st"
    and c: "s_chrBps st = [(20, 100), (20, 200)]"
    by blast
  have z: "(0::real) + 0 = 0" by simp
  have x: "\<forall>x\<in>set (processMap (100 :: real) ?interp (s_chrBps st)). x - x = 0" by simp
  have d: "length (s_chrBps st) < 2
         \<or> snd (last (s_chrBps st)) - snd (hd (s_chrBps st)) = 0
         \<or> (sorted (processMap (100 :: real) ?interp (s_chrBps st))
            \<and> last (processMap (100 :: real) ?interp (s_chrBps st)) =
                hd (processMap (100 :: real) ?interp (s_chrBps st)))
         \<or> snd (ranges (s_chrBps st) (processMap (100 :: real) ?interp (s_chrBps st))) = 0"
    by (simp add: c processMap_def)
  from degenerate_input_fatal[OF l z x d, of 1] show ?thesis by (simp add: Let_def)
qed

section \<open>Properties of segmenting and packing\<close>

subsection \<open>Loops of updates at computed indices\<close>

lemma length_fold_updates:
  "length (fold (\<lambda>n g. g[b + n := F n (g ! (b + n))]) ns g) = length g"
  by (induction ns arbitrary: g) simp_all

lemma nth_fold_updates:
  assumes "i < length g" "distinct ns"
  shows "fold (\<lambda>n g. g[b + n := F n (g ! (b + n))]) ns g ! i =
     (if b \<le> i \<and> i - b \<in> set ns then F (i - b) (g ! i) else g ! i)"
  using assms
proof (induction ns arbitrary: g)
  case Nil
  then show ?case by simp
next
  case (Cons n ns)
  let ?g1 = "g[b + n := F n (g ! (b + n))]"
  have l: "i < length ?g1" using Cons.prems by simp
  have d: "distinct ns" "n \<notin> set ns" using Cons.prems by simp_all
  have "fold (\<lambda>n g. g[b + n := F n (g ! (b + n))]) (n # ns) g ! i =
      (if b \<le> i \<and> i - b \<in> set ns then F (i - b) (?g1 ! i) else ?g1 ! i)"
    using Cons.IH[OF l d(1)] by simp
  also have "\<dots> = (if b \<le> i \<and> i - b \<in> set (n # ns) then F (i - b) (g ! i) else g ! i)"
  proof (cases "i = b + n")
    case True
    with d(2) Cons.prems(1) show ?thesis by simp
  next
    case False
    then have "b \<le> i \<Longrightarrow> i - b \<noteq> n" by auto
    with False show ?thesis by auto
  qed
  finally show ?case .
qed

lemma fold_same_index:
  "fold (\<lambda>j g. g[k := G j (g ! k)]) js = (\<lambda>g. g[k := fold G js (g ! k)])"
proof (induction js)
  case Nil
  show ?case by (simp add: fun_eq_iff)
next
  case (Cons j js)
  show ?case
  proof (rule ext)
    fix g :: "'a list"
    show "fold (\<lambda>j g. g[k := G j (g ! k)]) (j # js) g = g[k := fold G (j # js) (g ! k)]"
    proof (cases "k < length g")
      case True
      then show ?thesis by (simp add: Cons.IH)
    next
      case False
      then show ?thesis by (simp add: Cons.IH list_update_beyond)
    qed
  qed
qed

lemma store_ref_cell:
  "store_ref Nref N hapsRef m64 j m =
     (\<lambda>n g. g[m64 * N + n := cell_ref Nref hapsRef j m n (g ! (m64 * N + n))])"
  by (intro ext) (simp add: store_ref_def cell_ref_def Let_def)

lemma store_target_cell:
  "store_target Nref Ntarget N genosTarget m64 j m =
     (\<lambda>n g. g[m64 * N + n := cell_target Nref Ntarget genosTarget j m n (g ! (m64 * N + n))])"
  by (intro ext) (simp add: store_target_def cell_target_def Let_def)

lemma length_pack_variant:
  "length (pack_variant Nref Ntarget hapsRef genosTarget m64 snpInds j g) = length g"
  unfolding pack_variant_def Let_def store_ref_cell store_target_cell
  by (simp only: length_fold_updates)

lemma nth_pack_variant:
  assumes "i < length g"
  shows "pack_variant Nref Ntarget hapsRef genosTarget m64 snpInds j g ! i =
     (if m64 * (Nref + Ntarget) \<le> i \<and> i < m64 * (Nref + Ntarget) + (Nref + Ntarget)
      then cell_variant Nref Ntarget hapsRef genosTarget snpInds (i - m64 * (Nref + Ntarget)) j (g ! i)
      else g ! i)"
proof -
  let ?N = "Nref + Ntarget"
  let ?b = "m64 * ?N"
  let ?R = "cell_ref Nref hapsRef j (snpInds ! j)"
  let ?T = "cell_target Nref Ntarget genosTarget j (snpInds ! j)"
  let ?g1 = "fold (\<lambda>n g. g[?b + n := ?R n (g ! (?b + n))]) [0..<Nref] g"
  have l1: "i < length ?g1"
    using assms by (simp only: length_fold_updates)
  have a: "?g1 ! i = (if ?b \<le> i \<and> i - ?b \<in> set [0..<Nref] then ?R (i - ?b) (g ! i) else g ! i)"
    by (rule nth_fold_updates[OF assms]) simp
  have b: "fold (\<lambda>n g. g[?b + n := ?T n (g ! (?b + n))]) [Nref..<?N] ?g1 ! i =
     (if ?b \<le> i \<and> i - ?b \<in> set [Nref..<?N] then ?T (i - ?b) (?g1 ! i) else ?g1 ! i)"
    by (rule nth_fold_updates[OF l1]) simp
  show ?thesis
    unfolding pack_variant_def Let_def store_ref_cell store_target_cell b a
    by (auto simp: cell_variant_def)
qed


lemma length_fold_pack_variant:
  "length (fold (pack_variant Nref Ntarget hapsRef genosTarget m64 snpInds) js g) = length g"
  by (induction js arbitrary: g) (simp_all add: length_pack_variant)

lemma nth_fold_pack_variant:
  assumes "i < length g"
  shows "fold (pack_variant Nref Ntarget hapsRef genosTarget m64 snpInds) js g ! i =
     (if m64 * (Nref + Ntarget) \<le> i \<and> i < m64 * (Nref + Ntarget) + (Nref + Ntarget)
      then fold (cell_variant Nref Ntarget hapsRef genosTarget snpInds (i - m64 * (Nref + Ntarget)))
             js (g ! i)
      else g ! i)"
  using assms
proof (induction js arbitrary: g)
  case Nil
  show ?case by simp
next
  case (Cons j js)
  have l: "i < length (pack_variant Nref Ntarget hapsRef genosTarget m64 snpInds j g)"
    using Cons.prems by (simp add: length_pack_variant)
  show ?case
    using Cons.IH[OF l] by (simp add: nth_pack_variant[OF Cons.prems])
qed

lemma store_pad_cell:
  "store_pad N m64 n = (\<lambda>j g. g[m64 * N + n := cell_pad j (g ! (m64 * N + n))])"
  by (intro ext) (simp add: store_pad_def cell_pad_def Let_def)

lemma pad_loop:
  "fold (\<lambda>n. fold (store_pad N m64 n) js) ns g =
   fold (\<lambda>n g. g[m64 * N + n := (\<lambda>_. fold cell_pad js) n (g ! (m64 * N + n))]) ns g"
  by (simp add: store_pad_cell fold_same_index)

lemma length_pad_loop:
  "length (fold (\<lambda>n. fold (store_pad N m64 n) js) ns g) = length g"
  unfolding pad_loop by (rule length_fold_updates)

lemma nth_pad_loop:
  assumes "i < length g"
  shows "fold (\<lambda>n. fold (store_pad N m64 n) js) [0..<N] g ! i =
     (if m64 * N \<le> i \<and> i < m64 * N + N then fold cell_pad js (g ! i) else g ! i)"
proof -
  have "fold (\<lambda>n. fold (store_pad N m64 n) js) [0..<N] g ! i =
     (if m64 * N \<le> i \<and> i - m64 * N \<in> set [0..<N]
      then (\<lambda>_. fold cell_pad js) (i - m64 * N) (g ! i) else g ! i)"
    unfolding pad_loop by (rule nth_fold_updates[OF assms]) simp
  then show ?thesis by auto
qed

lemma length_pack_segment:
  "length (pack_segment Nref Ntarget hapsRef genosTarget seg64snpInds m64 g) = length g"
  by (simp add: pack_segment_def Let_def length_pad_loop length_fold_pack_variant)

lemma nth_pack_segment:
  assumes "i < length g"
  shows "pack_segment Nref Ntarget hapsRef genosTarget seg64snpInds m64 g ! i =
     (if m64 * (Nref + Ntarget) \<le> i \<and> i < m64 * (Nref + Ntarget) + (Nref + Ntarget)
      then cell_segment Nref Ntarget hapsRef genosTarget (seg64snpInds ! m64)
             (i - m64 * (Nref + Ntarget)) (g ! i)
      else g ! i)"
proof -
  let ?v = "fold (pack_variant Nref Ntarget hapsRef genosTarget m64 (seg64snpInds ! m64))
              [0..<length (seg64snpInds ! m64)] g"
  have l: "i < length ?v" using assms by (simp add: length_fold_pack_variant)
  show ?thesis
    unfolding pack_segment_def Let_def nth_pad_loop[OF l] nth_fold_pack_variant[OF assms]
    by (simp add: cell_segment_def)
qed

lemma block_index:
  assumes "m64 < K" "n < (N::nat)"
  shows "m64 * N + n < K * N"
proof -
  have "m64 * N + n < m64 * N + N" using assms(2) by simp
  also have "\<dots> = Suc m64 * N" by simp
  also have "\<dots> \<le> K * N" using assms(1) by (intro mult_le_mono1) simp
  finally show ?thesis .
qed

lemma length_fold_pack_segment:
  "length (fold (pack_segment Nref Ntarget hapsRef genosTarget seg64snpInds) ks g) = length g"
  by (induction ks arbitrary: g) (simp_all add: length_pack_segment)

lemma nth_fold_pack_segment_above:
  assumes "i < length g" "K * (Nref + Ntarget) \<le> i"
  shows "fold (pack_segment Nref Ntarget hapsRef genosTarget seg64snpInds) [0..<K] g ! i = g ! i"
  using assms(2)
proof (induction K)
  case 0
  show ?case by simp
next
  case (Suc K)
  let ?N = "Nref + Ntarget"
  let ?h = "fold (pack_segment Nref Ntarget hapsRef genosTarget seg64snpInds) [0..<K] g"
  have l: "i < length ?h" using assms(1) by (simp add: length_fold_pack_segment)
  have k: "K * ?N \<le> i" "\<not> i < K * ?N + ?N" using Suc.prems by simp_all
  show ?case
    using Suc.IH[OF k(1)] k(2) by (simp add: nth_pack_segment[OF l])
qed

lemma nth_fold_pack_segment:
  assumes "m64 < K" "n < Nref + Ntarget" "m64 * (Nref + Ntarget) + n < length g"
  shows "fold (pack_segment Nref Ntarget hapsRef genosTarget seg64snpInds) [0..<K] g
           ! (m64 * (Nref + Ntarget) + n) =
         cell_segment Nref Ntarget hapsRef genosTarget (seg64snpInds ! m64) n
           (g ! (m64 * (Nref + Ntarget) + n))"
  using assms(1)
proof (induction K)
  case 0
  then show ?case by simp
next
  case (Suc K)
  let ?N = "Nref + Ntarget"
  let ?i = "m64 * ?N + n"
  let ?h = "fold (pack_segment Nref Ntarget hapsRef genosTarget seg64snpInds) [0..<K] g"
  have l: "?i < length ?h" using assms(3) by (simp add: length_fold_pack_segment)
  show ?case
  proof (cases "m64 = K")
    case True
    have h: "?h ! ?i = g ! ?i"
      using nth_fold_pack_segment_above[OF assms(3), of K] True by simp
    have c: "K * ?N \<le> ?i \<and> ?i < K * ?N + ?N" "?i - K * ?N = n"
      using True assms(2) by simp_all
    have "fold (pack_segment Nref Ntarget hapsRef genosTarget seg64snpInds) [0..<Suc K] g ! ?i =
        pack_segment Nref Ntarget hapsRef genosTarget seg64snpInds K ?h ! ?i"
      by simp
    also have "\<dots> = cell_segment Nref Ntarget hapsRef genosTarget (seg64snpInds ! K)
        (?i - K * ?N) (?h ! ?i)"
      by (simp only: nth_pack_segment[OF l] c simp_thms if_True)
    also have "\<dots> = cell_segment Nref Ntarget hapsRef genosTarget (seg64snpInds ! m64) n (g ! ?i)"
      using h c(2) True by simp
    finally show ?thesis .
  next
    case False
    with Suc.prems have lt: "m64 < K" by simp
    from block_index[OF lt assms(2)] have "\<not> K * ?N \<le> ?i" by simp
    then show ?thesis
      using Suc.IH[OF lt] by (simp add: nth_pack_segment[OF l])
  qed
qed

subsection \<open>Bits of one element\<close>

lemma bit_or_push: "bit ((a::uint64) OR push_bit j (of_bool p)) k \<longleftrightarrow> bit a k \<or> (k = j \<and> k < 64 \<and> p)"
  by (auto simp: bit_simps)

lemma bit_or_push_1: "bit ((a::uint64) OR push_bit j 1) k \<longleftrightarrow> bit a k \<or> (k = j \<and> k < 64)"
  using bit_or_push[of a j True k] by simp

lemma bit_or_exp: "bit ((a::uint64) OR 2 ^ j) k \<longleftrightarrow> bit a k \<or> (k = j \<and> k < 64)"
  by (auto simp: bit_simps)

lemma bit_is0_fold_variant:
  "bit (is0 (fold (cell_variant Nref Ntarget hapsRef genosTarget snpInds n) js b)) k \<longleftrightarrow>
     bit (is0 b) k \<or>
     (k \<in> set js \<and> k < 64 \<and>
      (if n < Nref then hapsRef ! (snpInds ! k * 2 * Nref + 2 * n)
       else genosTarget ! (snpInds ! k * Ntarget + n - Nref) = 0))"
proof (induction js arbitrary: b)
  case Nil
  show ?case by simp
next
  case (Cons j js)
  show ?case
    unfolding fold_simps Cons.IH
    by (auto simp: cell_variant_def cell_ref_def cell_target_def bit_or_push)
qed

lemma bit_is2_fold_variant:
  "bit (is2 (fold (cell_variant Nref Ntarget hapsRef genosTarget snpInds n) js b)) k \<longleftrightarrow>
     bit (is2 b) k \<or>
     (k \<in> set js \<and> k < 64 \<and>
      (if n < Nref then hapsRef ! (snpInds ! k * 2 * Nref + 2 * n + 1)
       else genosTarget ! (snpInds ! k * Ntarget + n - Nref) = 2))"
proof (induction js arbitrary: b)
  case Nil
  show ?case by simp
next
  case (Cons j js)
  show ?case
    unfolding fold_simps Cons.IH
    by (auto simp: cell_variant_def cell_ref_def cell_target_def bit_or_push)
qed

lemma bit_is9_fold_variant:
  "bit (is9 (fold (cell_variant Nref Ntarget hapsRef genosTarget snpInds n) js b)) k \<longleftrightarrow>
     bit (is9 b) k \<or>
     (k \<in> set js \<and> k < 64 \<and> \<not> n < Nref \<and>
      genosTarget ! (snpInds ! k * Ntarget + n - Nref) = 9)"
proof (induction js arbitrary: b)
  case Nil
  show ?case by simp
next
  case (Cons j js)
  show ?case
    unfolding fold_simps Cons.IH
    by (auto simp: cell_variant_def cell_ref_def cell_target_def bit_or_push)
qed

lemma is0_fold_pad: "is0 (fold cell_pad js b) = is0 b"
  by (induction js arbitrary: b) (simp_all add: cell_pad_def)

lemma is2_fold_pad: "is2 (fold cell_pad js b) = is2 b"
  by (induction js arbitrary: b) (simp_all add: cell_pad_def)

lemma bit_is9_fold_pad:
  "bit (is9 (fold cell_pad js b)) k \<longleftrightarrow> bit (is9 b) k \<or> (k \<in> set js \<and> k < 64)"
proof (induction js arbitrary: b)
  case Nil
  show ?case by simp
next
  case (Cons j js)
  show ?case
    unfolding fold_simps Cons.IH
    by (auto simp: cell_pad_def bit_or_push_1 bit_or_exp)
qed

text \<open>The bits of an element of the zeroed array once its segment is packed.\<close>

lemma cell_segment_bits:
  shows "bit (is0 (cell_segment Nref Ntarget hapsRef genosTarget snpInds n \<lparr>is0 = 0, is2 = 0, is9 = 0\<rparr>)) k \<longleftrightarrow>
           k < length snpInds \<and> k < 64 \<and>
           (if n < Nref then hapsRef ! (snpInds ! k * 2 * Nref + 2 * n)
            else genosTarget ! (snpInds ! k * Ntarget + n - Nref) = 0)"
    and "bit (is2 (cell_segment Nref Ntarget hapsRef genosTarget snpInds n \<lparr>is0 = 0, is2 = 0, is9 = 0\<rparr>)) k \<longleftrightarrow>
           k < length snpInds \<and> k < 64 \<and>
           (if n < Nref then hapsRef ! (snpInds ! k * 2 * Nref + 2 * n + 1)
            else genosTarget ! (snpInds ! k * Ntarget + n - Nref) = 2)"
    and "bit (is9 (cell_segment Nref Ntarget hapsRef genosTarget snpInds n \<lparr>is0 = 0, is2 = 0, is9 = 0\<rparr>)) k \<longleftrightarrow>
           k < 64 \<and>
           (if k < length snpInds
            then \<not> n < Nref \<and> genosTarget ! (snpInds ! k * Ntarget + n - Nref) = 9
            else True)"
  unfolding cell_segment_def
  by (auto simp: is0_fold_pad is2_fold_pad bit_is9_fold_pad bit_is0_fold_variant
      bit_is2_fold_variant bit_is9_fold_variant)

lemma buildGenoBits_fields:
  assumes "segments cMs cMmax M = (segs, cMvecs)"
  shows "p_seg64snpInds (buildGenoBits Nref Ntarget M hapsRef genosTarget cMs cMmax) = segs"
    and "p_seg64cMvecs (buildGenoBits Nref Ntarget M hapsRef genosTarget cMs cMmax) = cMvecs"
    and "p_Mseg64 (buildGenoBits Nref Ntarget M hapsRef genosTarget cMs cMmax) = length segs"
    and "length (p_genoBits (buildGenoBits Nref Ntarget M hapsRef genosTarget cMs cMmax)) =
           length segs * (Nref + Ntarget)"
  by (simp_all add: buildGenoBits_def assms Let_def length_fold_pack_segment)

lemma buildGenoBits_cell:
  assumes "segments cMs cMmax M = (segs, cMvecs)" "m64 < length segs" "n < Nref + Ntarget"
  shows "p_genoBits (buildGenoBits Nref Ntarget M hapsRef genosTarget cMs cMmax)
           ! (m64 * (Nref + Ntarget) + n) =
         cell_segment Nref Ntarget hapsRef genosTarget (segs ! m64) n \<lparr>is0 = 0, is2 = 0, is9 = 0\<rparr>"
proof -
  let ?N = "Nref + Ntarget"
  let ?g0 = "replicate (length segs * ?N) \<lparr>is0 = 0, is2 = 0, is9 = 0\<rparr>"
  have i: "m64 * ?N + n < length segs * ?N" by (rule block_index[OF assms(2,3)])
  then have l: "m64 * ?N + n < length ?g0" by simp
  have "p_genoBits (buildGenoBits Nref Ntarget M hapsRef genosTarget cMs cMmax) =
      fold (pack_segment Nref Ntarget hapsRef genosTarget segs) [0..<length segs] ?g0"
    by (simp add: buildGenoBits_def assms(1) Let_def)
  then show ?thesis
    using nth_fold_pack_segment[OF assms(2,3) l, of hapsRef genosTarget segs] i by simp
qed

subsection \<open>The segmentation loop\<close>

lemma seg_inv_0: "seg_inv cMs cMmax 0 [[]]"
  by (simp add: seg_inv_def)

lemma seg_inv_close:
  assumes inv: "seg_inv cMs cMmax m (segs @ [cur])"
    and b: "boundary cMs cMmax (cur ! 0) (length cur) m"
  shows "seg_inv cMs cMmax (Suc m) ((segs @ [cur]) @ [[m]])"
proof -
  let ?all = "segs @ [cur]"
  have ne: "cur \<noteq> []" using b by (auto simp: boundary_def segMin_def)
  have c: "concat ?all = [0..<m]" using inv by (simp add: seg_inv_def)
  have bl: "\<forall>seg\<in>set (butlast ?all). seg \<noteq> []" using inv unfolding seg_inv_def by blast
  have ln: "\<forall>seg\<in>set ?all. length seg \<le> 64" using inv unfolding seg_inv_def by blast
  have bd: "\<forall>k. Suc k < length ?all \<longrightarrow>
            boundary cMs cMmax (?all ! k ! 0) (length (?all ! k)) (?all ! Suc k ! 0)"
    using inv unfolding seg_inv_def by blast
  have np: "\<forall>seg\<in>set ?all. \<forall>j. 0 < j \<and> j < length seg \<longrightarrow>
            \<not> boundary cMs cMmax (seg ! 0) j (seg ! j)"
    using inv unfolding seg_inv_def by blast
  have 1: "concat (?all @ [[m]]) = [0..<Suc m]" using c by simp
  have 2: "\<forall>seg\<in>set (butlast (?all @ [[m]])). seg \<noteq> []"
    using bl ne by (auto simp: butlast_append)
  have 3: "\<forall>seg\<in>set (?all @ [[m]]). length seg \<le> 64" using ln by auto
  have 4: "\<forall>k. Suc k < length (?all @ [[m]]) \<longrightarrow>
            boundary cMs cMmax ((?all @ [[m]]) ! k ! 0) (length ((?all @ [[m]]) ! k))
              ((?all @ [[m]]) ! Suc k ! 0)"
  proof (intro allI impI)
    fix k assume k: "Suc k < length (?all @ [[m]])"
    show "boundary cMs cMmax ((?all @ [[m]]) ! k ! 0) (length ((?all @ [[m]]) ! k))
              ((?all @ [[m]]) ! Suc k ! 0)"
    proof (cases "Suc k < length ?all")
      case True
      then have "(?all @ [[m]]) ! k = ?all ! k" "(?all @ [[m]]) ! Suc k = ?all ! Suc k"
        by (simp_all only: nth_append) simp_all
      with bd True show ?thesis by simp
    next
      case False
      with k have e: "k = length segs" by simp
      then have "(?all @ [[m]]) ! k = cur" "(?all @ [[m]]) ! Suc k = [m]"
        by (simp_all add: nth_append)
      with b show ?thesis by simp
    qed
  qed
  have 5: "\<forall>seg\<in>set (?all @ [[m]]). \<forall>j. 0 < j \<and> j < length seg \<longrightarrow>
            \<not> boundary cMs cMmax (seg ! 0) j (seg ! j)"
    using np by auto
  show ?thesis
    unfolding seg_inv_def using 1 2 3 4 5 by simp
qed

lemma seg_inv_extend:
  assumes inv: "seg_inv cMs cMmax m (segs @ [cur])"
    and b: "\<not> boundary cMs cMmax (cur ! 0) (length cur) m"
  shows "seg_inv cMs cMmax (Suc m) (segs @ [cur @ [m]])"
proof -
  let ?all = "segs @ [cur]"
  have c: "concat ?all = [0..<m]" using inv by (simp add: seg_inv_def)
  have bl: "\<forall>seg\<in>set segs. seg \<noteq> []" using inv unfolding seg_inv_def by simp
  have lz: "0 < m \<longrightarrow> cur \<noteq> []" using inv unfolding seg_inv_def by simp
  have ln: "\<forall>seg\<in>set ?all. length seg \<le> 64" using inv unfolding seg_inv_def by blast
  have bd: "\<forall>k. Suc k < length ?all \<longrightarrow>
            boundary cMs cMmax (?all ! k ! 0) (length (?all ! k)) (?all ! Suc k ! 0)"
    using inv unfolding seg_inv_def by blast
  have np: "\<forall>seg\<in>set ?all. \<forall>j. 0 < j \<and> j < length seg \<longrightarrow>
            \<not> boundary cMs cMmax (seg ! 0) j (seg ! j)"
    using inv unfolding seg_inv_def by blast
  have n64: "length cur \<noteq> 64" using b by (simp add: boundary_def)
  have 1: "concat (segs @ [cur @ [m]]) = [0..<Suc m]" using c by simp
  have 3: "\<forall>seg\<in>set (segs @ [cur @ [m]]). length seg \<le> 64"
    using ln n64 by auto
  have 4: "\<forall>k. Suc k < length (segs @ [cur @ [m]]) \<longrightarrow>
            boundary cMs cMmax ((segs @ [cur @ [m]]) ! k ! 0) (length ((segs @ [cur @ [m]]) ! k))
              ((segs @ [cur @ [m]]) ! Suc k ! 0)"
  proof (intro allI impI)
    fix k assume k: "Suc k < length (segs @ [cur @ [m]])"
    then have ks: "k < length segs" by simp
    then have "segs ! k \<in> set segs" by simp
    with bl have "segs ! k \<noteq> []" by blast
    with ks c have "0 < m"
      by (metis concat_eq_Nil_conv in_set_conv_nth length_greater_0_conv nth_append
          upt_eq_Nil_conv set_append UnI1 not_gr_zero \<open>segs ! k \<in> set segs\<close>)
    with lz have cne: "cur \<noteq> []" by blast
    have old: "boundary cMs cMmax (?all ! k ! 0) (length (?all ! k)) (?all ! Suc k ! 0)"
      using bd k by simp
    have a: "(segs @ [cur @ [m]]) ! k = ?all ! k" using ks by (simp add: nth_append)
    have "(segs @ [cur @ [m]]) ! Suc k ! 0 = ?all ! Suc k ! 0"
    proof (cases "Suc k < length segs")
      case True
      then show ?thesis by (simp add: nth_append)
    next
      case False
      with ks have "Suc k = length segs" by simp
      then show ?thesis using cne by (simp add: nth_append)
    qed
    with a old show "boundary cMs cMmax ((segs @ [cur @ [m]]) ! k ! 0)
        (length ((segs @ [cur @ [m]]) ! k)) ((segs @ [cur @ [m]]) ! Suc k ! 0)"
      by simp
  qed
  have 5: "\<forall>seg\<in>set (segs @ [cur @ [m]]). \<forall>j. 0 < j \<and> j < length seg \<longrightarrow>
            \<not> boundary cMs cMmax (seg ! 0) j (seg ! j)"
  proof (intro ballI allI impI)
    fix seg j assume s: "seg \<in> set (segs @ [cur @ [m]])" and j: "0 < j \<and> j < length seg"
    show "\<not> boundary cMs cMmax (seg ! 0) j (seg ! j)"
    proof (cases "seg \<in> set segs")
      case True
      with np j show ?thesis by simp
    next
      case False
      with s have e: "seg = cur @ [m]" by simp
      show ?thesis
      proof (cases "j < length cur")
        case True
        then have "seg ! 0 = cur ! 0" "seg ! j = cur ! j" using e j by (auto simp: nth_append)
        with np True j show ?thesis by simp
      next
        case False
        with j e have jl: "j = length cur" by simp
        with j have "cur \<noteq> []" by auto
        then have "seg ! 0 = cur ! 0" "seg ! j = m" using e jl by (simp_all add: nth_append)
        with b jl show ?thesis by simp
      qed
    qed
  qed
  show ?thesis
    unfolding seg_inv_def using 1 3 4 5 bl by simp
qed

lemma seg_step_state:
  assumes "seg_state cMs cMmax m s"
  shows "seg_state cMs cMmax (Suc m) (seg_step cMs cMmax m s)"
proof -
  obtain segs cvs cur cv where s: "s = (segs, cvs, cur, cv)" by (cases s)
  from assms s have cvs: "cvs = map (map ((!) cMs)) segs" and cv: "cv = map ((!) cMs) cur"
    and inv: "seg_inv cMs cMmax m (segs @ [cur])"
    by (simp_all add: seg_state_def)
  have cond: "(length cv = 64 \<or> (length cv \<ge> segMin \<and> cMs ! m > cv ! 0 + cMmax))
      = boundary cMs cMmax (cur ! 0) (length cur) m"
  proof -
    have "segMin \<le> length cur \<Longrightarrow> map ((!) cMs) cur ! 0 = cMs ! (cur ! 0)"
      by (rule nth_map) (auto simp: segMin_def)
    then show ?thesis unfolding boundary_def cv by auto
  qed
  show ?thesis
  proof (cases "boundary cMs cMmax (cur ! 0) (length cur) m")
    case True
    with cond have "seg_step cMs cMmax m s = (segs @ [cur], cvs @ [cv], [m], [cMs ! m])"
      by (simp add: seg_step_def s)
    with seg_inv_close[OF inv True] cvs cv show ?thesis
      by (simp add: seg_state_def)
  next
    case False
    with cond have "seg_step cMs cMmax m s = (segs, cvs, cur @ [m], cv @ [cMs ! m])"
      by (simp add: seg_step_def s)
    with seg_inv_extend[OF inv False] cvs cv show ?thesis
      by (simp add: seg_state_def)
  qed
qed

lemma seg_fold_state: "seg_state cMs cMmax M (fold (seg_step cMs cMmax) [0..<M] ([], [], [], []))"
proof (induction M)
  case 0
  show ?case by (simp add: seg_state_def seg_inv_0)
next
  case (Suc M)
  then show ?case by (simp add: seg_step_state)
qed

lemma segments_inv:
  "case segments cMs cMmax M of (segs, cMvecs) \<Rightarrow>
     cMvecs = map (map ((!) cMs)) segs \<and> seg_inv cMs cMmax M segs"
proof -
  obtain segs cvs cur cv where
    f: "fold (seg_step cMs cMmax) [0..<M] ([], [], [], []) = (segs, cvs, cur, cv)"
    by (metis prod_cases4)
  with seg_fold_state[of cMs cMmax M] show ?thesis
    by (simp add: segments_def seg_state_def)
qed

lemma segments_partition:
  assumes "0 < M"
  shows "case segments cMs cMmax M of (segs, cMvecs) \<Rightarrow>
      concat segs = [0..<M]
    \<and> cMvecs = map (map ((!) cMs)) segs
    \<and> (\<forall>seg\<in>set segs. 1 \<le> length seg \<and> length seg \<le> 64)
    \<and> sum_list (map length segs) = M
    \<and> (\<forall>k. Suc k < length segs \<longrightarrow>
          boundary cMs cMmax (segs ! k ! 0) (length (segs ! k)) (segs ! Suc k ! 0))
    \<and> (\<forall>seg\<in>set segs. \<forall>j. 0 < j \<and> j < length seg \<longrightarrow>
          \<not> boundary cMs cMmax (seg ! 0) j (seg ! j))"
proof -
  obtain segs cvs where s: "segments cMs cMmax M = (segs, cvs)" by (cases "segments cMs cMmax M")
  with segments_inv[of cMs cMmax M] have cvs: "cvs = map (map ((!) cMs)) segs"
    and inv: "seg_inv cMs cMmax M segs" by simp_all
  from inv have ne: "segs \<noteq> []" and c: "concat segs = [0..<M]"
    and bl: "\<forall>seg\<in>set (butlast segs). seg \<noteq> []" and la: "last segs \<noteq> []"
    and ln: "\<forall>seg\<in>set segs. length seg \<le> 64"
    using assms(1) unfolding seg_inv_def by blast+
  have "\<forall>seg\<in>set segs. seg \<noteq> []"
  proof
    fix seg assume "seg \<in> set segs"
    then have "seg \<in> set (butlast segs @ [last segs])" using ne by simp
    then show "seg \<noteq> []" using bl la by auto
  qed
  then have l1: "\<forall>seg\<in>set segs. 1 \<le> length seg \<and> length seg \<le> 64"
    using ln by (auto simp: Suc_le_eq)
  have "sum_list (map length segs) = length (concat segs)" by (simp add: length_concat)
  then have sm: "sum_list (map length segs) = M" using c by simp
  from inv have
    "(\<forall>k. Suc k < length segs \<longrightarrow>
          boundary cMs cMmax (segs ! k ! 0) (length (segs ! k)) (segs ! Suc k ! 0))
    \<and> (\<forall>seg\<in>set segs. \<forall>j. 0 < j \<and> j < length seg \<longrightarrow>
          \<not> boundary cMs cMmax (seg ! 0) j (seg ! j))"
    unfolding seg_inv_def by blast
  with c cvs l1 sm show ?thesis unfolding s by simp
qed

text \<open>
  Claim C1. For at least one accepted variant (so also for the two or more that the
  constructor requires) and one coordinate per variant, the segments that
  \<^verbatim>\<open>buildGenoBits\<close> forms are consecutive runs of the variant indices: concatenated in
  order they give \<open>0, ..., M - 1\<close>, and \<^verbatim>\<open>seg64cMvecs\<close> holds their coordinates. Each
  segment has between 1 and 64 variants, and the lengths sum to \<open>M\<close>. A segment is
  followed by another one only if, when the first variant of that next one arrived, it
  had 64 variants, or at least 16 and the arriving coordinate was greater than the
  coordinate of its own first variant plus \<^verbatim>\<open>cMmax\<close>; and inside a segment no variant
  after the first arrived in such a situation.
\<close>

theorem segmentation:
  assumes "0 < M" and "length cMs = M"
  shows "let pk = buildGenoBits Nref Ntarget M hapsRef genosTarget cMs cMmax;
             segs = p_seg64snpInds pk
         in concat segs = [0..<M]
          \<and> p_Mseg64 pk = length segs
          \<and> p_seg64cMvecs pk = map (map ((!) cMs)) segs
          \<and> (\<forall>seg\<in>set segs. 1 \<le> length seg \<and> length seg \<le> 64)
          \<and> sum_list (map length segs) = M
          \<and> (\<forall>k. Suc k < length segs \<longrightarrow>
                boundary cMs cMmax (segs ! k ! 0) (length (segs ! k)) (segs ! Suc k ! 0))
          \<and> (\<forall>seg\<in>set segs. \<forall>j. 0 < j \<and> j < length seg \<longrightarrow>
                \<not> boundary cMs cMmax (seg ! 0) j (seg ! j))"
proof -
  obtain segs cMvecs where s: "segments cMs cMmax M = (segs, cMvecs)"
    by (cases "segments cMs cMmax M")
  from segments_partition[OF assms(1), of cMs cMmax] show ?thesis
    unfolding s prod.case Let_def buildGenoBits_fields[OF s] by blast
qed

theorem segmentation_witness:
  "(let pk = buildGenoBits 1 1 17 (replicate 34 False) (replicate 17 0) (map real [0..<17]) 10;
        segs = p_seg64snpInds pk
    in segs = [[0, 1, 2, 3, 4, 5, 6, 7, 8, 9, 10, 11, 12, 13, 14, 15], [16]]
       \<and> concat segs = [0..<17] \<and> sum_list (map length segs) = 17
       \<and> boundary (map real [0..<17]) 10 0 16 16)"
proof -
  let ?cMs = "map real [0..<17]"
  let ?segs = "[[0, 1, 2, 3, 4, 5, 6, 7, 8, 9, 10, 11, 12, 13, 14, 15], [16::nat]]"
  have e: "segments ?cMs 10 17 =
   (?segs, [[0, 1, 2, 3, 4, 5, 6, 7, 8, 9, 10, 11, 12, 13, 14, 15], [16]])"
    by code_simp
  have h1: "0 < (17::nat)" by simp
  have h2: "length ?cMs = 17" by simp
  from segmentation[OF h1 h2, of 1 1 "replicate 34 False" "replicate 17 0" 10] have
    c: "concat ?segs = [0..<17]"
    and s: "sum_list (map length ?segs) = 17"
    and b: "\<forall>k. Suc k < length ?segs \<longrightarrow>
          boundary ?cMs 10 (?segs ! k ! 0) (length (?segs ! k)) (?segs ! Suc k ! 0)"
    unfolding Let_def buildGenoBits_fields[OF e] by blast+
  have l: "length [0, 1, 2, 3, 4, 5, 6, 7, 8, 9, 10, 11, 12, 13, 14, 15 :: nat] = 16" by simp
  have "Suc 0 < length ?segs" by simp
  from b[rule_format, OF this] have "boundary ?cMs 10 0 16 16"
    by (simp only: nth_Cons_0 nth_Cons_Suc l)
  with c s show ?thesis unfolding Let_def buildGenoBits_fields[OF e] by blast
qed

subsection \<open>The packed masks\<close>

text \<open>
  Claim C2. \<^verbatim>\<open>buildGenoBits\<close> keeps the segments it formed, their number in
  \<^verbatim>\<open>Mseg64\<close>, and one element per segment and individual in \<^verbatim>\<open>genoBits\<close>. For
  every segment, every individual \<open>n\<close> below \<^verbatim>\<open>Nref + Ntarget\<close> and every position
  \<open>j\<close> from the length of the segment up to 63, bit \<open>j\<close> of \<^verbatim>\<open>is9\<close> is set and bit
  \<open>j\<close> of \<^verbatim>\<open>is0\<close> and of \<^verbatim>\<open>is2\<close> is clear.
\<close>

theorem padding_bits:
  assumes "segments cMs cMmax M = (segs, cMvecs)"
    and "m64 < length segs" and "n < Nref + Ntarget"
    and "length (segs ! m64) \<le> j" and "j < 64"
  shows "p_seg64snpInds (buildGenoBits Nref Ntarget M hapsRef genosTarget cMs cMmax) = segs
    \<and> p_Mseg64 (buildGenoBits Nref Ntarget M hapsRef genosTarget cMs cMmax) = length segs
    \<and> length (p_genoBits (buildGenoBits Nref Ntarget M hapsRef genosTarget cMs cMmax)) =
          length segs * (Nref + Ntarget)
    \<and> bit (is9 (p_genoBits (buildGenoBits Nref Ntarget M hapsRef genosTarget cMs cMmax)
                   ! (m64 * (Nref + Ntarget) + n))) j
    \<and> \<not> bit (is0 (p_genoBits (buildGenoBits Nref Ntarget M hapsRef genosTarget cMs cMmax)
                   ! (m64 * (Nref + Ntarget) + n))) j
    \<and> \<not> bit (is2 (p_genoBits (buildGenoBits Nref Ntarget M hapsRef genosTarget cMs cMmax)
                   ! (m64 * (Nref + Ntarget) + n))) j"
  unfolding buildGenoBits_cell[OF assms(1,2,3)] buildGenoBits_fields[OF assms(1)]
  using assms(4,5) by (simp add: cell_segment_bits)

theorem padding_bits_witness:
  "bit (is9 (p_genoBits (buildGenoBits 1 1 2 [True, False, False, True] [1, 9] [0, 1 :: real] 1) ! 1)) 2
   \<and> \<not> bit (is0 (p_genoBits (buildGenoBits 1 1 2 [True, False, False, True] [1, 9] [0, 1 :: real] 1) ! 1)) 2
   \<and> \<not> bit (is2 (p_genoBits (buildGenoBits 1 1 2 [True, False, False, True] [1, 9] [0, 1 :: real] 1) ! 1)) 2"
proof -
  have e: "segments [0, 1 :: real] 1 2 = ([[0, 1]], [[0, 1]])" by code_simp
  have h: "0 < length [[0, 1 :: nat]]" "1 < 1 + (1::nat)" "length ([[0, 1 :: nat]] ! 0) \<le> 2"
    "(2::nat) < 64" by simp_all
  from padding_bits[OF e h, of "[True, False, False, True]" "[1, 9]"] show ?thesis by simp
qed

text \<open>
  Claim C5. For every segment, every position \<open>j\<close> inside it and every target sample
  \<open>t\<close> whose genotype code at the variant of that position is 1, bit \<open>j\<close> of
  \<^verbatim>\<open>is0\<close>, of \<^verbatim>\<open>is2\<close> and of \<^verbatim>\<open>is9\<close> of the individual \<^verbatim>\<open>Nref + t\<close> is clear.
\<close>

theorem heterozygous_bits:
  assumes "segments cMs cMmax M = (segs, cMvecs)"
    and "m64 < length segs" and "j < length (segs ! m64)" and "t < Ntarget"
    and "genosTarget ! (segs ! m64 ! j * Ntarget + t) = 1"
  shows "\<not> bit (is0 (p_genoBits (buildGenoBits Nref Ntarget M hapsRef genosTarget cMs cMmax)
                   ! (m64 * (Nref + Ntarget) + (Nref + t)))) j
    \<and> \<not> bit (is2 (p_genoBits (buildGenoBits Nref Ntarget M hapsRef genosTarget cMs cMmax)
                   ! (m64 * (Nref + Ntarget) + (Nref + t)))) j
    \<and> \<not> bit (is9 (p_genoBits (buildGenoBits Nref Ntarget M hapsRef genosTarget cMs cMmax)
                   ! (m64 * (Nref + Ntarget) + (Nref + t)))) j"
proof -
  have n: "Nref + t < Nref + Ntarget" using assms(4) by simp
  show ?thesis
    unfolding buildGenoBits_cell[OF assms(1,2) n]
    using assms(3,5) by (simp add: cell_segment_bits)
qed

theorem heterozygous_bits_witness:
  "\<not> bit (is0 (p_genoBits (buildGenoBits 1 1 2 [True, False, False, True] [1, 9] [0, 1 :: real] 1) ! 1)) 0
   \<and> \<not> bit (is2 (p_genoBits (buildGenoBits 1 1 2 [True, False, False, True] [1, 9] [0, 1 :: real] 1) ! 1)) 0
   \<and> \<not> bit (is9 (p_genoBits (buildGenoBits 1 1 2 [True, False, False, True] [1, 9] [0, 1 :: real] 1) ! 1)) 0"
proof -
  have e: "segments [0, 1 :: real] 1 2 = ([[0, 1]], [[0, 1]])" by code_simp
  have h: "0 < length [[0, 1 :: nat]]" "0 < length ([[0, 1 :: nat]] ! 0)" "(0::nat) < 1"
    "[1, 9 :: uchar] ! ([[0, 1 :: nat]] ! 0 ! 0 * 1 + 0) = 1" by simp_all
  from heterozygous_bits[OF e h, of 1 "[True, False, False, True]"] show ?thesis by simp
qed

text \<open>
  Claim C10. For every segment and every reference individual \<open>n\<close> below \<^verbatim>\<open>Nref\<close>,
  bit \<open>j\<close> of \<^verbatim>\<open>is9\<close> is set exactly when \<open>j\<close> is a padding position, from the
  length of the segment up to 63; at every position inside the segment it is clear. The
  reference side has no marker of a missing call: the encoder stores two booleans per
  sample, those of the reference allele when a call is missing (negated, as all others,
  when the alleles are swapped).
\<close>

theorem reference_is9_padding_only:
  assumes "segments cMs cMmax M = (segs, cMvecs)"
    and "m64 < length segs" and "n < Nref"
  shows "bit (is9 (p_genoBits (buildGenoBits Nref Ntarget M hapsRef genosTarget cMs cMmax)
                   ! (m64 * (Nref + Ntarget) + n))) j
         \<longleftrightarrow> length (segs ! m64) \<le> j \<and> j < 64"
proof -
  have n: "n < Nref + Ntarget" using assms(3) by simp
  show ?thesis
    unfolding buildGenoBits_cell[OF assms(1,2) n]
    using assms(3) by (auto simp: cell_segment_bits)
qed

theorem reference_is9_padding_only_witness:
  "\<not> bit (is9 (p_genoBits (buildGenoBits 1 1 2 [True, False, False, True] [1, 9] [0, 1 :: real] 1) ! 0)) 1
   \<and> bit (is9 (p_genoBits (buildGenoBits 1 1 2 [True, False, False, True] [1, 9] [0, 1 :: real] 1) ! 0)) 2"
proof -
  have e: "segments [0, 1 :: real] 1 2 = ([[0, 1]], [[0, 1]])" by code_simp
  have h: "0 < length [[0, 1 :: nat]]" "(0::nat) < 1" by simp_all
  from reference_is9_padding_only[OF e h, of 1 "[True, False, False, True]" "[1, 9]" 1]
    reference_is9_padding_only[OF e h, of 1 "[True, False, False, True]" "[1, 9]" 2]
  show ?thesis by simp
qed

end
